theory Spec2Isabelle
  imports Complex_Main "HOL-Library.Multiset" "HOL-Library.Sublist"
begin

section \<open>JavaScript strings\<close>

text \<open>
  File names are modelled as \<^typ>\<open>string\<close>, one \<^typ>\<open>char\<close> per code unit; the
  embedding covers names whose code units lie in the 8-bit range. On that range
  \<open>String.prototype.toLowerCase\<close> maps \<open>A\<close>..\<open>Z\<close> and the Latin-1 capitals
  (0xC0..0xDE except the multiplication sign 0xD7) to the code unit 32 above.
\<close>

definition CHAR_DOT :: char where
  "CHAR_DOT = CHR ''.''"

definition CHAR_FORWARD_SLASH :: char where
  "CHAR_FORWARD_SLASH = CHR ''/''"

definition toLowerCase_unit :: "char \<Rightarrow> char" where
  "toLowerCase_unit c =
     (let n = (of_char c :: nat)
      in if (65 \<le> n \<and> n \<le> 90) \<or> (192 \<le> n \<and> n \<le> 222 \<and> n \<noteq> 215)
         then char_of (n + 32) else c)"

definition toLowerCase :: "string \<Rightarrow> string" where
  "toLowerCase s = map toLowerCase_unit s"

text \<open>
  \<open>String.prototype.slice(from, to)\<close>: a negative index counts from the end, both
  indices are clamped to the string, and an empty range gives the empty string.
\<close>

definition slice :: "string \<Rightarrow> int \<Rightarrow> int \<Rightarrow> string" where
  "slice s from to =
     (let len = int (length s);
          a = (if from < 0 then max (len + from) 0 else min from len);
          b = (if to < 0 then max (len + to) 0 else min to len)
      in take (nat (b - a)) (drop (nat a) s))"

section \<open>The path module (POSIX flavour)\<close>

text \<open>
  The converter calls \<open>path.extname\<close>, \<open>path.parse\<close> and \<open>path.join\<close> of Node.js. They
  are library functions; they are modelled after the library's POSIX implementation
  (\<open>lib/path.js\<close>), loop by loop, with the library's own variable names.
\<close>

text \<open>
  \<open>path.extname\<close> and \<open>path.parse\<close> share one backwards scan over the path. Its
  variables are the fields of \<open>scan\<close>; \<open>-1\<close> is the "not seen yet" mark, as in the
  library. The scan is written over the characters still to visit, last character
  first, so that the index \<open>i\<close> of the character in hand is \<open>start\<close> plus the number
  of characters in front of it.
\<close>

record scan =
  startDot :: int
  startPart :: int
  end_ix :: int
  matchedSlash :: bool
  preDotState :: int

definition scan_init :: scan where
  "scan_init = \<lparr>startDot = -1, startPart = 0, end_ix = -1, matchedSlash = True, preDotState = 0\<rparr>"

fun path_scan :: "nat \<Rightarrow> string \<Rightarrow> scan \<Rightarrow> scan" where
  "path_scan start [] s = s"
| "path_scan start (code # front) s =
     (let i = int start + int (length front)
      in if code = CHAR_FORWARD_SLASH then
           (if \<not> matchedSlash s then s\<lparr>startPart := i + 1\<rparr>
            else path_scan start front s)
         else
           (let s1 = (if end_ix s = -1 then s\<lparr>matchedSlash := False, end_ix := i + 1\<rparr> else s);
                s2 = (if code = CHAR_DOT then
                        (if startDot s1 = -1 then s1\<lparr>startDot := i\<rparr>
                         else if preDotState s1 \<noteq> 1 then s1\<lparr>preDotState := 1\<rparr>
                         else s1)
                      else if startDot s1 \<noteq> -1 then s1\<lparr>preDotState := -1\<rparr>
                      else s1)
            in path_scan start front s2))"

definition no_extension :: "scan \<Rightarrow> bool" where
  "no_extension s \<longleftrightarrow>
     startDot s = -1 \<or> preDotState s = 0 \<or>
     (preDotState s = 1 \<and> startDot s = end_ix s - 1 \<and> startDot s = startPart s + 1)"

definition extname :: "string \<Rightarrow> string" where
  "extname path =
     (let s = path_scan 0 (rev path) scan_init
      in if end_ix s = -1 \<or> no_extension s then []
         else slice path (startDot s) (end_ix s))"

record parsed_path =
  root' :: string
  dir :: string
  base :: string
  ext :: string
  name :: string

definition parse :: "string \<Rightarrow> parsed_path" where
  "parse path =
     (let ret = \<lparr>root' = [], dir = [], base = [], ext = [], name = []\<rparr>
      in if length path = 0 then ret
         else
           (let isAbsolute = (hd path = CHAR_FORWARD_SLASH);
                ret1 = (if isAbsolute then ret\<lparr>root' := ''/''\<rparr> else ret);
                start = (if isAbsolute then 1 else 0);
                s = path_scan start (rev (drop start path)) scan_init;
                ret2 =
                  (if end_ix s \<noteq> -1 then
                     (let st = (if startPart s = 0 \<and> isAbsolute then 1 else startPart s)
                      in if no_extension s then
                           ret1\<lparr>base := slice path st (end_ix s), name := slice path st (end_ix s)\<rparr>
                         else
                           ret1\<lparr>name := slice path st (startDot s),
                                base := slice path st (end_ix s),
                                ext := slice path (startDot s) (end_ix s)\<rparr>)
                   else ret1)
            in if startPart s > 0 then ret2\<lparr>dir := slice path 0 (startPart s - 1)\<rparr>
               else if isAbsolute then ret2\<lparr>dir := ''/''\<rparr>
               else ret2))"

text \<open>
  \<open>normalizeString\<close>, the loop behind \<open>path.normalize\<close>: it walks the path from index
  0 to \<open>path.length\<close> inclusive, the last round standing for a closing separator.
  \<open>normalize_round\<close> is one round of the loop body for the character \<open>c\<close> at index
  \<open>i\<close>; the rounds that end in \<open>continue\<close> are the two early results.
\<close>

record norm =
  res :: string
  lastSegmentLength :: int
  lastSlash :: int
  dots :: int
  code :: char

definition isPosixPathSeparator :: "char \<Rightarrow> bool" where
  "isPosixPathSeparator c \<longleftrightarrow> c = CHAR_FORWARD_SLASH"

fun lastIndexOf_from :: "char \<Rightarrow> string \<Rightarrow> int" where
  "lastIndexOf_from c [] = -1"
| "lastIndexOf_from c (x # front) =
     (if x = c then int (length front) else lastIndexOf_from c front)"

definition lastIndexOf :: "string \<Rightarrow> char \<Rightarrow> int" where
  "lastIndexOf s c = lastIndexOf_from c (rev s)"

definition charCodeAt :: "string \<Rightarrow> int \<Rightarrow> char option" where
  "charCodeAt s i = (if 0 \<le> i \<and> i < int (length s) then Some (s ! nat i) else None)"

definition normalize_round :: "bool \<Rightarrow> string \<Rightarrow> int \<Rightarrow> char \<Rightarrow> norm \<Rightarrow> norm" where
  "normalize_round allowAboveRoot path i c st0 =
     (let st = st0\<lparr>code := c\<rparr>
      in if isPosixPathSeparator c then
           (if lastSlash st = i - 1 \<or> dots st = 1 then
              st\<lparr>lastSlash := i, dots := 0\<rparr>
            else if dots st = 2 then
              (if (int (length (res st)) < 2 \<or> lastSegmentLength st \<noteq> 2 \<or>
                   charCodeAt (res st) (int (length (res st)) - 1) \<noteq> Some CHAR_DOT \<or>
                   charCodeAt (res st) (int (length (res st)) - 2) \<noteq> Some CHAR_DOT) \<and>
                  int (length (res st)) > 2 then
                 (let lastSlashIndex = lastIndexOf (res st) CHAR_FORWARD_SLASH
                  in if lastSlashIndex = -1 then
                       st\<lparr>res := [], lastSegmentLength := 0, lastSlash := i, dots := 0\<rparr>
                     else
                       (let r = slice (res st) 0 lastSlashIndex
                        in st\<lparr>res := r,
                              lastSegmentLength :=
                                int (length r) - 1 - lastIndexOf r CHAR_FORWARD_SLASH,
                              lastSlash := i, dots := 0\<rparr>))
               else if (int (length (res st)) < 2 \<or> lastSegmentLength st \<noteq> 2 \<or>
                   charCodeAt (res st) (int (length (res st)) - 1) \<noteq> Some CHAR_DOT \<or>
                   charCodeAt (res st) (int (length (res st)) - 2) \<noteq> Some CHAR_DOT) \<and>
                  length (res st) \<noteq> 0 then
                 st\<lparr>res := [], lastSegmentLength := 0, lastSlash := i, dots := 0\<rparr>
               else if allowAboveRoot then
                 st\<lparr>res := (if length (res st) > 0 then res st @ ''/..'' else ''..''),
                    lastSegmentLength := 2, lastSlash := i, dots := 0\<rparr>
               else st\<lparr>lastSlash := i, dots := 0\<rparr>)
            else
              st\<lparr>res := (if length (res st) > 0
                           then res st @ ''/'' @ slice path (lastSlash st + 1) i
                           else slice path (lastSlash st + 1) i),
                 lastSegmentLength := i - lastSlash st - 1,
                 lastSlash := i, dots := 0\<rparr>)
         else if c = CHAR_DOT \<and> dots st \<noteq> -1 then st\<lparr>dots := dots st + 1\<rparr>
         else st\<lparr>dots := -1\<rparr>)"

fun normalize_loop :: "bool \<Rightarrow> string \<Rightarrow> string \<Rightarrow> norm \<Rightarrow> string" where
  "normalize_loop allowAboveRoot path [] st =
     (if isPosixPathSeparator (code st) then res st
      else res (normalize_round allowAboveRoot path (int (length path)) CHAR_FORWARD_SLASH st))"
| "normalize_loop allowAboveRoot path (c # rest) st =
     normalize_loop allowAboveRoot path rest
       (normalize_round allowAboveRoot path (int (length path) - int (length rest) - 1) c st)"

definition normalizeString :: "string \<Rightarrow> bool \<Rightarrow> string" where
  "normalizeString path allowAboveRoot =
     normalize_loop allowAboveRoot path path
       \<lparr>res = [], lastSegmentLength = 0, lastSlash = -1, dots = 0, code = CHR 0x00\<rparr>"

definition normalize_path :: "string \<Rightarrow> string" where
  "normalize_path path =
     (if length path = 0 then ''.''
      else
        (let isAbsolute = (hd path = CHAR_FORWARD_SLASH);
             trailingSeparator = (last path = CHAR_FORWARD_SLASH);
             p = normalizeString path (\<not> isAbsolute)
         in if length p = 0 then
              (if isAbsolute then ''/'' else if trailingSeparator then ''./'' else ''.'')
            else
              (let p1 = (if trailingSeparator then p @ ''/'' else p)
               in if isAbsolute then ''/'' @ p1 else p1)))"

text \<open>
  \<open>path.join(...args)\<close>: the non-empty arguments are glued with \<open>/\<close> in order and the
  result is normalized; \<open>joined\<close> is \<open>None\<close> while it is still \<open>undefined\<close>.
\<close>

fun join_loop :: "string list \<Rightarrow> string option \<Rightarrow> string option" where
  "join_loop [] joined = joined"
| "join_loop (arg # args) joined =
     join_loop args
       (if length arg > 0 then
          (case joined of None \<Rightarrow> Some arg | Some j \<Rightarrow> Some (j @ ''/'' @ arg))
        else joined)"

definition join :: "string list \<Rightarrow> string" where
  "join args =
     (if length args = 0 then ''.''
      else (case join_loop args None of None \<Rightarrow> ''.'' | Some joined \<Rightarrow> normalize_path joined))"

section \<open>The outside world\<close>

text \<open>
  The converter talks to three collaborators: the console, the file system (through
  \<open>fs-extra\<close>) and the encoding engine (through \<open>fluent-ffmpeg\<close>). Everything it does
  to them is recorded, in order, as a list of events. What they answer is given by
  an environment of oracles, each of which may depend on everything that happened
  before; every awaited operation is taken to settle.
\<close>

text \<open>
  One constructor per console statement of \<open>converter.js\<close>, with the values it
  interpolates. By source line: 17 \<open>FFmpeg_unavailable\<close>, 18 \<open>Install_hint\<close>,
  21 \<open>FFmpeg_installed\<close>, 33 \<open>Directories_created\<close>, 35 \<open>Create_directories_failed\<close>,
  48 \<open>Read_input_failed\<close>, 60 \<open>Converting\<close>, 72 \<open>Command_line\<close>, 76 \<open>Progress_percent\<close>,
  80 \<open>Convert_done\<close>, 84 \<open>Convert_failed\<close>, 93 \<open>Batch_start\<close>, 98 \<open>No_files_found\<close>,
  99 \<open>Put_files_hint\<close>, 103 \<open>Files_found\<close>, 104 \<open>File_item\<close>, 121 \<open>Results_header\<close>,
  122 \<open>Success_count\<close>, 123 \<open>Failed_count\<close>, 126 \<open>Failed_header\<close>, 128 \<open>Failed_item\<close>,
  135 \<open>Banner\<close>, 136 \<open>Rule\<close>. Lines 17, 35, 48 and 84 go to \<open>console.error\<close>, the
  others to \<open>console.log\<close>.
\<close>

datatype console_line =
    FFmpeg_unavailable
  | Install_hint
  | FFmpeg_installed
  | Directories_created
  | Create_directories_failed string
  | Read_input_failed string
  | Converting string string
  | Command_line string
  | Progress_percent int
  | Convert_done string
  | Convert_failed string string
  | Batch_start
  | No_files_found
  | Put_files_hint string
  | Files_found nat
  | File_item string
  | Results_header
  | Success_count nat
  | Failed_count nat
  | Failed_header
  | Failed_item string string
  | Banner
  | Rule

datatype event =
    ConsoleLog console_line
  | ConsoleError console_line
  | GetAvailableCodecs
  | EnsureDir string
  | Readdir string
  | FfmpegRun string "string list" string

type_synonym trace = "event list"

text \<open>
  A directory entry has a name and a kind. A run of the engine sends any number of
  \<open>start\<close> and \<open>progress\<close> signals and then one closing signal, \<open>end\<close> or \<open>error\<close>.
\<close>

record dirent =
  d_name :: string
  isDirectory :: bool

datatype signal = Start string | Progress "real option"

datatype closing = End | Error string

record engine_run =
  signals :: "signal list"
  closing_signal :: closing

record env =
  getAvailableCodecs :: "trace \<Rightarrow> string option"
  ensureDir :: "trace \<Rightarrow> string \<Rightarrow> string option"
  readdir :: "trace \<Rightarrow> string \<Rightarrow> string + dirent list"
  ffmpeg :: "trace \<Rightarrow> string \<Rightarrow> string list \<Rightarrow> string \<Rightarrow> engine_run"

section \<open>The converter\<close>

record converter =
  inputDir :: string
  outputDir :: string
  supportedFormats :: "string list"

definition new_converter :: converter where
  "new_converter =
     \<lparr>inputDir = ''./input'', outputDir = ''./output'',
      supportedFormats = [''.webm'', ''.mkv'', ''.avi'', ''.mov'', ''.flv'']\<rparr>"

text \<open>\<open>checkFFmpeg\<close>: the callback's \<open>err\<close> is \<open>Some\<close> when the probe failed.\<close>

definition checkFFmpeg :: "env \<Rightarrow> trace \<Rightarrow> bool \<times> trace" where
  "checkFFmpeg e t =
     (case getAvailableCodecs e t of
        Some err \<Rightarrow>
          (False, t @ [GetAvailableCodecs, ConsoleError FFmpeg_unavailable, ConsoleLog Install_hint])
      | None \<Rightarrow> (True, t @ [GetAvailableCodecs, ConsoleLog FFmpeg_installed]))"

text \<open>
  \<open>createDirectories\<close>: an \<open>ensureDir\<close> that rejects answers \<open>Some message\<close>; the
  \<open>catch\<close> block prints it, and the second \<open>ensureDir\<close> is skipped when the first
  one threw.
\<close>

definition createDirectories :: "converter \<Rightarrow> env \<Rightarrow> trace \<Rightarrow> trace" where
  "createDirectories this e t =
     (case ensureDir e t (inputDir this) of
        Some message \<Rightarrow>
          t @ [EnsureDir (inputDir this), ConsoleError (Create_directories_failed message)]
      | None \<Rightarrow>
          (let t1 = t @ [EnsureDir (inputDir this)]
           in case ensureDir e t1 (outputDir this) of
                Some message \<Rightarrow>
                  t1 @ [EnsureDir (outputDir this), ConsoleError (Create_directories_failed message)]
              | None \<Rightarrow> t1 @ [EnsureDir (outputDir this), ConsoleLog Directories_created]))"

text \<open>
  \<open>getInputFiles\<close>: \<open>fs.readdir\<close> resolves with the entries' names only. The filter
  keeps a name when its lower-cased \<open>path.extname\<close> is among \<open>supportedFormats\<close>.
\<close>

definition is_supported :: "converter \<Rightarrow> string \<Rightarrow> bool" where
  "is_supported this file =
     (let ext = toLowerCase (extname file) in ext \<in> set (supportedFormats this))"

definition getInputFiles :: "converter \<Rightarrow> env \<Rightarrow> trace \<Rightarrow> string list \<times> trace" where
  "getInputFiles this e t =
     (case readdir e t (inputDir this) of
        Inr entries \<Rightarrow>
          (let files = map d_name entries
           in (filter (is_supported this) files, t @ [Readdir (inputDir this)]))
      | Inl message \<Rightarrow>
          ([], t @ [Readdir (inputDir this), ConsoleError (Read_input_failed message)]))"

text \<open>
  \<open>convertFile\<close>: the promise resolves with the output path (\<open>Inr\<close>) on \<open>end\<close> and
  rejects with the engine's error (\<open>Inl\<close> of its message) on \<open>error\<close>.
\<close>

definition outputOptions :: "string list" where
  "outputOptions =
     [''-c:v libx264'', ''-c:a aac'', ''-preset medium'', ''-crf 23'', ''-movflags +faststart'']"

definition inputPath :: "converter \<Rightarrow> string \<Rightarrow> string" where
  "inputPath this inputFile = join [inputDir this, inputFile]"

definition outputFileName :: "string \<Rightarrow> string" where
  "outputFileName inputFile = name (parse inputFile) @ ''.mp4''"

definition outputPath :: "converter \<Rightarrow> string \<Rightarrow> string" where
  "outputPath this inputFile = join [outputDir this, outputFileName inputFile]"

definition Math_round :: "real \<Rightarrow> int" where
  "Math_round x = \<lfloor>x + 1 / 2\<rfloor>"

fun on_signal :: "signal \<Rightarrow> trace" where
  "on_signal (Start commandLine) = [ConsoleLog (Command_line commandLine)]"
| "on_signal (Progress percent) =
     (case percent of
        Some p \<Rightarrow> (if p \<noteq> 0 then [ConsoleLog (Progress_percent (Math_round p))] else [])
      | None \<Rightarrow> [])"

definition convertFile :: "converter \<Rightarrow> env \<Rightarrow> trace \<Rightarrow> string \<Rightarrow> (string + string) \<times> trace" where
  "convertFile this e t inputFile =
     (let t1 = t @ [ConsoleLog (Converting inputFile (outputFileName inputFile))];
          r = ffmpeg e t1 (inputPath this inputFile) outputOptions (outputPath this inputFile);
          t2 = t1 @ [FfmpegRun (inputPath this inputFile) outputOptions (outputPath this inputFile)]
                  @ concat (map on_signal (signals r))
      in case closing_signal r of
           End \<Rightarrow>
             (Inr (outputPath this inputFile),
              t2 @ [ConsoleLog (Convert_done (outputFileName inputFile))])
         | Error message \<Rightarrow>
             (Inl message, t2 @ [ConsoleError (Convert_failed inputFile message)]))"

text \<open>
  \<open>convertAll\<close>. An item of \<open>results.success\<close> is the pair (input, output), an item
  of \<open>results.failed\<close> the pair (input, error). \<open>convert_loop\<close> is the \<open>for\<close> loop
  over \<open>files\<close>.
\<close>

record results =
  success :: "(string \<times> string) list"
  failed :: "(string \<times> string) list"

fun convert_loop :: "converter \<Rightarrow> env \<Rightarrow> string list \<Rightarrow> results \<times> trace \<Rightarrow> results \<times> trace" where
  "convert_loop this e [] (rs, t) = (rs, t)"
| "convert_loop this e (file # files) (rs, t) =
     (case convertFile this e t file of
        (Inr outPath, t1) \<Rightarrow>
          convert_loop this e files (rs\<lparr>success := success rs @ [(file, outPath)]\<rparr>, t1)
      | (Inl message, t1) \<Rightarrow>
          convert_loop this e files (rs\<lparr>failed := failed rs @ [(file, message)]\<rparr>, t1))"

definition convertAll :: "converter \<Rightarrow> env \<Rightarrow> trace \<Rightarrow> trace" where
  "convertAll this e t =
     (case getInputFiles this e (t @ [ConsoleLog Batch_start]) of
        (files, t1) \<Rightarrow>
          if length files = 0 then
            t1 @ [ConsoleLog No_files_found, ConsoleLog (Put_files_hint (inputDir this))]
          else
            (case convert_loop this e files
                    (\<lparr>success = [], failed = []\<rparr>,
                     t1 @ [ConsoleLog (Files_found (length files))]
                        @ map (\<lambda>file. ConsoleLog (File_item file)) files) of
               (rs, t2) \<Rightarrow>
                 (let t3 = t2 @ [ConsoleLog Results_header,
                                 ConsoleLog (Success_count (length (success rs))),
                                 ConsoleLog (Failed_count (length (failed rs)))]
                  in if length (failed rs) > 0 then
                       t3 @ [ConsoleLog Failed_header]
                          @ map (\<lambda>item. ConsoleLog (Failed_item (fst item) (snd item))) (failed rs)
                     else t3)))"

definition run :: "converter \<Rightarrow> env \<Rightarrow> trace \<Rightarrow> trace" where
  "run this e t =
     (case checkFFmpeg e (t @ [ConsoleLog Banner, ConsoleLog Rule]) of
        (ffmpegAvailable, t1) \<Rightarrow>
          if \<not> ffmpegAvailable then t1
          else convertAll this e (createDirectories this e t1))"

section \<open>The specification's reading of a recognized extension\<close>

text \<open>
  Following the specification's words: the recognized input extensions are \<open>.webm\<close>,
  \<open>.mkv\<close>, \<open>.avi\<close>, \<open>.mov\<close> and \<open>.flv\<close>, matched as a suffix of the file name
  without regard to case. \<open>has_extension file x\<close> says that the last characters of
  \<open>file\<close>, lower-cased, are \<open>x\<close>.
\<close>

definition recognized_extensions :: "string list" where
  "recognized_extensions = [''.webm'', ''.mkv'', ''.avi'', ''.mov'', ''.flv'']"

definition has_extension :: "string \<Rightarrow> string \<Rightarrow> bool" where
  "has_extension file x \<longleftrightarrow>
     length x \<le> length file \<and> toLowerCase (drop (length file - length x) file) = x"

definition has_recognized_extension :: "string \<Rightarrow> bool" where
  "has_recognized_extension file \<longleftrightarrow> (\<exists>x \<in> set recognized_extensions. has_extension file x)"

section \<open>Reading a trace\<close>

text \<open>
  What an observer can tell from a trace: the engine invocations (input path, output
  path), the file-system writes, the directory listings, and the lines of the
  console that report a conversion's success or failure.
\<close>

fun engine_runs :: "trace \<Rightarrow> (string \<times> string) list" where
  "engine_runs [] = []"
| "engine_runs (FfmpegRun inPath opts outPath # t) = (inPath, outPath) # engine_runs t"
| "engine_runs (ev # t) = engine_runs t"

fun fs_writes :: "trace \<Rightarrow> string list" where
  "fs_writes [] = []"
| "fs_writes (EnsureDir d # t) = d # fs_writes t"
| "fs_writes (ev # t) = fs_writes t"

fun listings :: "trace \<Rightarrow> string list" where
  "listings [] = []"
| "listings (Readdir d # t) = d # listings t"
| "listings (ev # t) = listings t"

fun success_counts :: "trace \<Rightarrow> nat list" where
  "success_counts [] = []"
| "success_counts (ConsoleLog (Success_count n) # t) = n # success_counts t"
| "success_counts (ev # t) = success_counts t"

fun failed_counts :: "trace \<Rightarrow> nat list" where
  "failed_counts [] = []"
| "failed_counts (ConsoleLog (Failed_count n) # t) = n # failed_counts t"
| "failed_counts (ev # t) = failed_counts t"

fun is_result_line :: "console_line \<Rightarrow> bool" where
  "is_result_line (Convert_done f) = True"
| "is_result_line (Convert_failed f m) = True"
| "is_result_line (Success_count n) = True"
| "is_result_line (Failed_count n) = True"
| "is_result_line (Failed_item f m) = True"
| "is_result_line l = False"

fun result_lines :: "trace \<Rightarrow> console_line list" where
  "result_lines [] = []"
| "result_lines (ConsoleLog l # t) = (if is_result_line l then l # result_lines t else result_lines t)"
| "result_lines (ConsoleError l # t) = (if is_result_line l then l # result_lines t else result_lines t)"
| "result_lines (ev # t) = result_lines t"

fun console_errors :: "trace \<Rightarrow> console_line list" where
  "console_errors [] = []"
| "console_errors (ConsoleError l # t) = l # console_errors t"
| "console_errors (ev # t) = console_errors t"

section \<open>Sample environments\<close>

text \<open>
  A working installation whose input directory holds two convertible files (the
  engine fails on the second), a text file, a directory and a dot file; and the same
  installation with one collaborator broken at a time.
\<close>

definition sample_listing :: "dirent list" where
  "sample_listing =
     [\<lparr>d_name = ''clip.webm'', isDirectory = False\<rparr>,
      \<lparr>d_name = ''notes.txt'', isDirectory = False\<rparr>,
      \<lparr>d_name = ''broken.MKV'', isDirectory = False\<rparr>,
      \<lparr>d_name = ''.webm'', isDirectory = False\<rparr>]"

definition sample_engine :: "trace \<Rightarrow> string \<Rightarrow> string list \<Rightarrow> string \<Rightarrow> engine_run" where
  "sample_engine t inPath opts outPath =
     (if inPath = ''input/broken.MKV''
      then \<lparr>signals = [Start ''ffmpeg -i input/broken.MKV''], closing_signal = Error ''invalid frame''\<rparr>
      else \<lparr>signals = [Progress None], closing_signal = End\<rparr>)"

definition sample_env :: env where
  "sample_env =
     \<lparr>getAvailableCodecs = (\<lambda>t. None),
      ensureDir = (\<lambda>t d. None),
      readdir = (\<lambda>t d. Inr sample_listing),
      ffmpeg = sample_engine\<rparr>"

definition env_without_engine :: env where
  "env_without_engine = sample_env\<lparr>getAvailableCodecs := (\<lambda>t. Some ''spawn ffmpeg ENOENT'')\<rparr>"

definition env_unreadable_input :: env where
  "env_unreadable_input = sample_env\<lparr>readdir := (\<lambda>t d. Inl ''ENOENT: no such file or directory'')\<rparr>"

definition env_readonly_disk :: env where
  "env_readonly_disk = sample_env\<lparr>ensureDir := (\<lambda>t d. Some ''EACCES: permission denied'')\<rparr>"

definition env_nothing_to_do :: env where
  "env_nothing_to_do =
     sample_env\<lparr>readdir := (\<lambda>t d. Inr [\<lparr>d_name = ''notes.txt'', isDirectory = False\<rparr>])\<rparr>"

definition env_directory_entry :: env where
  "env_directory_entry =
     sample_env\<lparr>readdir := (\<lambda>t d. Inr [\<lparr>d_name = ''holiday.webm'', isDirectory = True\<rparr>])\<rparr>"

section \<open>Facts about traces\<close>

lemma engine_runs_append: "engine_runs (t @ u) = engine_runs t @ engine_runs u"
  by (induction t rule: engine_runs.induct) simp_all

lemma fs_writes_append: "fs_writes (t @ u) = fs_writes t @ fs_writes u"
  by (induction t rule: fs_writes.induct) simp_all

lemma listings_append: "listings (t @ u) = listings t @ listings u"
  by (induction t rule: listings.induct) simp_all

lemma success_counts_append: "success_counts (t @ u) = success_counts t @ success_counts u"
  by (induction t rule: success_counts.induct) simp_all

lemma failed_counts_append: "failed_counts (t @ u) = failed_counts t @ failed_counts u"
  by (induction t rule: failed_counts.induct) simp_all

lemma result_lines_append: "result_lines (t @ u) = result_lines t @ result_lines u"
  by (induction t rule: result_lines.induct) simp_all

lemma engine_runs_signals: "engine_runs (concat (map on_signal sigs)) = []"
proof (induction sigs)
  case Nil
  show ?case by simp
next
  case (Cons sg sigs)
  then show ?case
    by (cases sg) (simp_all add: engine_runs_append split: option.splits)
qed

lemma success_counts_signals: "success_counts (concat (map on_signal sigs)) = []"
proof (induction sigs)
  case Nil
  show ?case by simp
next
  case (Cons sg sigs)
  then show ?case
    by (cases sg) (simp_all add: success_counts_append split: option.splits)
qed

lemma failed_counts_signals: "failed_counts (concat (map on_signal sigs)) = []"
proof (induction sigs)
  case Nil
  show ?case by simp
next
  case (Cons sg sigs)
  then show ?case
    by (cases sg) (simp_all add: failed_counts_append split: option.splits)
qed

lemma convertFile_engine_runs:
  "engine_runs (snd (convertFile this e t file)) =
     engine_runs t @ [(inputPath this file, outputPath this file)]"
  by (simp add: convertFile_def Let_def engine_runs_append engine_runs_signals split: closing.splits)

lemma convertFile_result:
  "fst (convertFile this e t file) =
     (case closing_signal
             (ffmpeg e (t @ [ConsoleLog (Converting file (outputFileName file))])
                (inputPath this file) outputOptions (outputPath this file)) of
        End \<Rightarrow> Inr (outputPath this file)
      | Error message \<Rightarrow> Inl message)"
  by (simp add: convertFile_def Let_def split: closing.splits)

lemma convertFile_success_counts:
  "success_counts (snd (convertFile this e t file)) = success_counts t"
  by (simp add: convertFile_def Let_def success_counts_append success_counts_signals split: closing.splits)

lemma convertFile_failed_counts:
  "failed_counts (snd (convertFile this e t file)) = failed_counts t"
  by (simp add: convertFile_def Let_def failed_counts_append failed_counts_signals split: closing.splits)

lemma convert_loop_count:
  "length (success (fst (convert_loop this e files (rs, t)))) +
   length (failed (fst (convert_loop this e files (rs, t)))) =
     length (success rs) + length (failed rs) + length files"
proof (induction files arbitrary: rs t)
  case Nil
  show ?case by simp
next
  case (Cons f files)
  obtain r t1 where cf: "convertFile this e t f = (r, t1)"
    by (cases "convertFile this e t f")
  show ?case
  proof (cases r)
    case (Inl message)
    with cf Cons.IH [of "rs\<lparr>failed := failed rs @ [(f, message)]\<rparr>" t1]
    show ?thesis by simp
  next
    case (Inr outPath)
    with cf Cons.IH [of "rs\<lparr>success := success rs @ [(f, outPath)]\<rparr>" t1]
    show ?thesis by simp
  qed
qed

lemma convert_loop_inputs:
  "mset (map fst (success (fst (convert_loop this e files (rs, t))))) +
   mset (map fst (failed (fst (convert_loop this e files (rs, t))))) =
     mset (map fst (success rs)) + mset (map fst (failed rs)) + mset files"
proof (induction files arbitrary: rs t)
  case Nil
  show ?case by simp
next
  case (Cons f files)
  obtain r t1 where cf: "convertFile this e t f = (r, t1)"
    by (cases "convertFile this e t f")
  show ?case
  proof (cases r)
    case (Inl message)
    with cf Cons.IH [of "rs\<lparr>failed := failed rs @ [(f, message)]\<rparr>" t1]
    show ?thesis by simp
  next
    case (Inr outPath)
    with cf Cons.IH [of "rs\<lparr>success := success rs @ [(f, outPath)]\<rparr>" t1]
    show ?thesis by simp
  qed
qed

lemma convert_loop_engine_runs:
  "engine_runs (snd (convert_loop this e files (rs, t))) =
     engine_runs t @ map (\<lambda>file. (inputPath this file, outputPath this file)) files"
proof (induction files arbitrary: rs t)
  case Nil
  show ?case by simp
next
  case (Cons f files)
  obtain r t1 where cf: "convertFile this e t f = (r, t1)"
    by (cases "convertFile this e t f")
  have t1: "engine_runs t1 = engine_runs t @ [(inputPath this f, outputPath this f)]"
    using convertFile_engine_runs [of this e t f] cf by simp
  show ?case
  proof (cases r)
    case (Inl message)
    with cf t1 Cons.IH [of "rs\<lparr>failed := failed rs @ [(f, message)]\<rparr>" t1]
    show ?thesis by simp
  next
    case (Inr outPath)
    with cf t1 Cons.IH [of "rs\<lparr>success := success rs @ [(f, outPath)]\<rparr>" t1]
    show ?thesis by simp
  qed
qed

lemma convert_loop_success_counts:
  "success_counts (snd (convert_loop this e files (rs, t))) = success_counts t"
proof (induction files arbitrary: rs t)
  case Nil
  show ?case by simp
next
  case (Cons f files)
  obtain r t1 where cf: "convertFile this e t f = (r, t1)"
    by (cases "convertFile this e t f")
  have t1: "success_counts t1 = success_counts t"
    using convertFile_success_counts [of this e t f] cf by simp
  show ?case
  proof (cases r)
    case (Inl message)
    with cf t1 Cons.IH [of "rs\<lparr>failed := failed rs @ [(f, message)]\<rparr>" t1]
    show ?thesis by simp
  next
    case (Inr outPath)
    with cf t1 Cons.IH [of "rs\<lparr>success := success rs @ [(f, outPath)]\<rparr>" t1]
    show ?thesis by simp
  qed
qed

lemma convert_loop_failed_counts:
  "failed_counts (snd (convert_loop this e files (rs, t))) = failed_counts t"
proof (induction files arbitrary: rs t)
  case Nil
  show ?case by simp
next
  case (Cons f files)
  obtain r t1 where cf: "convertFile this e t f = (r, t1)"
    by (cases "convertFile this e t f")
  have t1: "failed_counts t1 = failed_counts t"
    using convertFile_failed_counts [of this e t f] cf by simp
  show ?case
  proof (cases r)
    case (Inl message)
    with cf t1 Cons.IH [of "rs\<lparr>failed := failed rs @ [(f, message)]\<rparr>" t1]
    show ?thesis by simp
  next
    case (Inr outPath)
    with cf t1 Cons.IH [of "rs\<lparr>success := success rs @ [(f, outPath)]\<rparr>" t1]
    show ?thesis by simp
  qed
qed

lemma getInputFiles_trace:
  "snd (getInputFiles this e t) = t @ [Readdir (inputDir this)] \<or>
   (\<exists>m. snd (getInputFiles this e t) = t @ [Readdir (inputDir this), ConsoleError (Read_input_failed m)])"
  by (simp add: getInputFiles_def Let_def split: sum.splits)

lemma getInputFiles_engine_runs: "engine_runs (snd (getInputFiles this e t)) = engine_runs t"
  using getInputFiles_trace [of this e t] by (auto simp: engine_runs_append)

lemma getInputFiles_success_counts: "success_counts (snd (getInputFiles this e t)) = success_counts t"
  using getInputFiles_trace [of this e t] by (auto simp: success_counts_append)

lemma getInputFiles_failed_counts: "failed_counts (snd (getInputFiles this e t)) = failed_counts t"
  using getInputFiles_trace [of this e t] by (auto simp: failed_counts_append)

lemma getInputFiles_result_lines: "result_lines (snd (getInputFiles this e t)) = result_lines t"
  using getInputFiles_trace [of this e t] by (auto simp: result_lines_append)

lemma engine_runs_console: "engine_runs (map (\<lambda>x. ConsoleLog (g x)) xs) = []"
  by (induction xs) simp_all

lemma success_counts_File_item: "success_counts (map (\<lambda>x. ConsoleLog (File_item x)) xs) = []"
  by (induction xs) simp_all

lemma failed_counts_File_item: "failed_counts (map (\<lambda>x. ConsoleLog (File_item x)) xs) = []"
  by (induction xs) simp_all

lemma success_counts_Failed_item:
  "success_counts (map (\<lambda>x. ConsoleLog (Failed_item (fst x) (snd x))) xs) = []"
  by (induction xs) simp_all

lemma failed_counts_Failed_item:
  "failed_counts (map (\<lambda>x. ConsoleLog (Failed_item (fst x) (snd x))) xs) = []"
  by (induction xs) simp_all

lemma convertAll_engine_runs:
  "engine_runs (convertAll this e t) =
     engine_runs t @
     map (\<lambda>f. (inputPath this f, outputPath this f))
       (fst (getInputFiles this e (t @ [ConsoleLog Batch_start])))"
proof -
  obtain files t1 where g: "getInputFiles this e (t @ [ConsoleLog Batch_start]) = (files, t1)"
    by (cases "getInputFiles this e (t @ [ConsoleLog Batch_start])")
  have t1: "engine_runs t1 = engine_runs t"
    using getInputFiles_engine_runs [of this e "t @ [ConsoleLog Batch_start]"] g
    by (simp add: engine_runs_append)
  show ?thesis
  proof (cases "files = []")
    case True
    with g t1 show ?thesis by (simp add: convertAll_def engine_runs_append)
  next
    case False
    obtain rs t2 where l: "convert_loop this e files
        (\<lparr>success = [], failed = []\<rparr>,
         t1 @ [ConsoleLog (Files_found (length files))] @ map (\<lambda>f. ConsoleLog (File_item f)) files) = (rs, t2)"
      by (cases "convert_loop this e files
        (\<lparr>success = [], failed = []\<rparr>,
         t1 @ [ConsoleLog (Files_found (length files))] @ map (\<lambda>f. ConsoleLog (File_item f)) files)")
    have t2: "engine_runs t2 = engine_runs t @ map (\<lambda>f. (inputPath this f, outputPath this f)) files"
      using convert_loop_engine_runs [of this e files "\<lparr>success = [], failed = []\<rparr>"
          "t1 @ [ConsoleLog (Files_found (length files))] @ map (\<lambda>f. ConsoleLog (File_item f)) files"]
        l t1
      by (simp add: engine_runs_append engine_runs_console)
    from False g l t2 show ?thesis
      by (simp add: convertAll_def Let_def engine_runs_append engine_runs_console)
  qed
qed


lemma console_errors_append: "console_errors (t @ u) = console_errors t @ console_errors u"
  by (induction t rule: console_errors.induct) simp_all

lemma createDirectories_engine_runs: "engine_runs (createDirectories this e t) = engine_runs t"
  by (simp add: createDirectories_def Let_def engine_runs_append split: option.splits)

lemma convert_loop_extends: "prefix t (snd (convert_loop this e files (rs, t)))"
proof (induction files arbitrary: rs t)
  case Nil
  show ?case by simp
next
  case (Cons f files)
  obtain r t1 where cf: "convertFile this e t f = (r, t1)"
    by (cases "convertFile this e t f")
  have p: "prefix t t1"
    using cf by (auto simp: convertFile_def Let_def split: closing.splits)
  show ?case
  proof (cases r)
    case (Inl message)
    with cf p Cons.IH [of t1 "rs\<lparr>failed := failed rs @ [(f, message)]\<rparr>"]
    show ?thesis by (auto intro: prefix_order.trans)
  next
    case (Inr outPath)
    with cf p Cons.IH [of t1 "rs\<lparr>success := success rs @ [(f, outPath)]\<rparr>"]
    show ?thesis by (auto intro: prefix_order.trans)
  qed
qed

lemma convertAll_starts_with_listing:
  "prefix (t @ [ConsoleLog Batch_start, Readdir (inputDir this)]) (convertAll this e t)"
proof -
  let ?u = "t @ [ConsoleLog Batch_start, Readdir (inputDir this)]"
  obtain files t1 where g: "getInputFiles this e (t @ [ConsoleLog Batch_start]) = (files, t1)"
    by (cases "getInputFiles this e (t @ [ConsoleLog Batch_start])")
  have p1: "prefix ?u t1"
    using getInputFiles_trace [of this e "t @ [ConsoleLog Batch_start]"] g by auto
  show ?thesis
  proof (cases "files = []")
    case True
    with g p1 show ?thesis by (simp add: convertAll_def prefix_prefix)
  next
    case False
    let ?t3 = "t1 @ [ConsoleLog (Files_found (length files))] @ map (\<lambda>f. ConsoleLog (File_item f)) files"
    obtain rs t2 where l: "convert_loop this e files (\<lparr>success = [], failed = []\<rparr>, ?t3) = (rs, t2)"
      by (cases "convert_loop this e files (\<lparr>success = [], failed = []\<rparr>, ?t3)")
    have "prefix ?t3 t2"
      using convert_loop_extends [of ?t3 this e files "\<lparr>success = [], failed = []\<rparr>"] l by simp
    moreover have "prefix ?u ?t3"
      using p1 by (rule prefix_prefix)
    ultimately have p2: "prefix ?u t2"
      by (rule prefix_order.trans [rotated])
    from False g l p2 show ?thesis
      by (simp add: convertAll_def Let_def prefix_prefix del: append_assoc)
  qed
qed


section \<open>Facts about the path functions\<close>

lemma dot_not_slash [simp]: "CHAR_DOT \<noteq> CHAR_FORWARD_SLASH" "CHAR_FORWARD_SLASH \<noteq> CHAR_DOT"
  by (simp_all add: CHAR_DOT_def CHAR_FORWARD_SLASH_def)

lemma path_scan_plain_char:
  assumes "c \<noteq> CHAR_DOT" and "c \<noteq> CHAR_FORWARD_SLASH"
  shows "path_scan start (c # cs) s =
           path_scan start cs
             ((if end_ix s = -1
               then s\<lparr>matchedSlash := False, end_ix := int start + int (length cs) + 1\<rparr>
               else s)\<lparr>preDotState := (if startDot s \<noteq> -1 then -1 else preDotState s)\<rparr>)"
  using assms by (simp add: Let_def)

lemma path_scan_dot_char:
  "path_scan start (CHAR_DOT # cs) s =
     path_scan start cs
       (if startDot s = -1 then
          (if end_ix s = -1
           then s\<lparr>matchedSlash := False, end_ix := int start + int (length cs) + 1\<rparr>
           else s)\<lparr>startDot := int start + int (length cs)\<rparr>
        else
          (if end_ix s = -1
           then s\<lparr>matchedSlash := False, end_ix := int start + int (length cs) + 1\<rparr>
           else s)\<lparr>preDotState := 1\<rparr>)"
  by (cases s) (simp add: Let_def)

lemma path_scan_extension_chars:
  assumes "CHAR_DOT \<notin> set cs" and "CHAR_FORWARD_SLASH \<notin> set cs" and "startDot s = -1"
  shows "path_scan start (cs @ rest) s =
           path_scan start rest
             (if cs = [] \<or> end_ix s \<noteq> -1 then s
              else s\<lparr>matchedSlash := False,
                     end_ix := int start + int (length cs) + int (length rest)\<rparr>)"
  using assms
proof (induction cs arbitrary: s)
  case Nil
  show ?case by simp
next
  case (Cons c cs)
  show ?case
  proof (cases "end_ix s = -1")
    case True
    let ?s2 = "s\<lparr>matchedSlash := False, end_ix := int start + int (length (cs @ rest)) + 1\<rparr>"
    have c: "c \<noteq> CHAR_DOT" "c \<noteq> CHAR_FORWARD_SLASH"
      using Cons.prems by auto
    have "path_scan start ((c # cs) @ rest) s = path_scan start (cs @ rest) ?s2"
      using Cons.prems(3) True by (simp add: path_scan_plain_char [OF c] del: path_scan.simps)
    also have "\<dots> = path_scan start rest ?s2"
      using Cons.IH [of ?s2] Cons.prems by simp
    finally show ?thesis using True by (simp add: add.commute add.left_commute)
  next
    case False
    have c: "c \<noteq> CHAR_DOT" "c \<noteq> CHAR_FORWARD_SLASH"
      using Cons.prems by auto
    have "path_scan start ((c # cs) @ rest) s = path_scan start (cs @ rest) s"
      using Cons.prems(3) False by (simp add: path_scan_plain_char [OF c] del: path_scan.simps)
    also have "\<dots> = path_scan start rest s"
      using Cons.IH [of s] Cons.prems False by simp
    finally show ?thesis using False by simp
  qed
qed

lemma path_scan_stem_chars:
  assumes "CHAR_FORWARD_SLASH \<notin> set cs" and "startDot s \<noteq> -1" and "end_ix s \<noteq> -1"
  shows "path_scan start cs s =
           (if cs = [] then s
            else s\<lparr>preDotState := (if last cs = CHAR_DOT then 1 else -1)\<rparr>)"
  using assms
proof (induction cs arbitrary: s)
  case Nil
  show ?case by simp
next
  case (Cons c cs)
  let ?s2 = "s\<lparr>preDotState := (if c = CHAR_DOT then 1 else -1)\<rparr>"
  have c: "c \<noteq> CHAR_FORWARD_SLASH"
    using Cons.prems by auto
  have step: "path_scan start (c # cs) s = path_scan start cs ?s2"
  proof (cases "c = CHAR_DOT")
    case True
    with Cons.prems(2,3) show ?thesis by (simp add: path_scan_dot_char del: path_scan.simps)
  next
    case False
    with Cons.prems(2,3) c show ?thesis by (simp add: path_scan_plain_char del: path_scan.simps)
  qed
  show ?case
  proof (cases "cs = []")
    case True
    with step show ?thesis by simp
  next
    case False
    with step Cons.IH [of ?s2] Cons.prems show ?thesis by simp
  qed
qed

lemma path_scan_dotted:
  assumes "CHAR_FORWARD_SLASH \<notin> set b" and "CHAR_FORWARD_SLASH \<notin> set x" and "CHAR_DOT \<notin> set x"
  shows "path_scan 0 (rev (b @ CHAR_DOT # x)) scan_init =
           \<lparr>startDot = int (length b), startPart = 0,
            end_ix = int (length b) + 1 + int (length x),
            matchedSlash = False,
            preDotState = (if b = [] then 0 else if hd b = CHAR_DOT then 1 else -1)\<rparr>"
proof -
  let ?s1 = "if x = [] then scan_init
             else scan_init\<lparr>matchedSlash := False,
                            end_ix := int (length x) + (1 + int (length b))\<rparr>"
  let ?s2 = "\<lparr>startDot = int (length b), startPart = 0,
             end_ix = int (length b) + 1 + int (length x),
             matchedSlash = False, preDotState = 0\<rparr>"
  have "path_scan 0 (rev (b @ CHAR_DOT # x)) scan_init =
        path_scan 0 (rev x @ (CHAR_DOT # rev b)) scan_init"
    by simp
  also have "\<dots> = path_scan 0 (CHAR_DOT # rev b) ?s1"
    using path_scan_extension_chars [of "rev x" scan_init 0 "CHAR_DOT # rev b"] assms
    by (simp add: scan_init_def del: path_scan.simps)
  also have "\<dots> = path_scan 0 (rev b) ?s2"
    by (simp add: path_scan_dot_char scan_init_def add.commute add.left_commute
        del: path_scan.simps)
  also have "\<dots> = (if rev b = [] then ?s2
                   else ?s2\<lparr>preDotState := (if last (rev b) = CHAR_DOT then 1 else -1)\<rparr>)"
    using assms by (intro path_scan_stem_chars) simp_all
  finally show ?thesis
    by (simp add: last_rev)
qed

lemma path_scan_dotless:
  assumes "CHAR_FORWARD_SLASH \<notin> set p" and "CHAR_DOT \<notin> set p"
  shows "startDot (path_scan 0 (rev p) scan_init) = -1 \<and>
         startPart (path_scan 0 (rev p) scan_init) = 0 \<and>
         end_ix (path_scan 0 (rev p) scan_init) = (if p = [] then -1 else int (length p))"
  using path_scan_extension_chars [of "rev p" scan_init 0 "[]"] assms
  by (simp add: scan_init_def)

lemma slice_suffix:
  "slice (b @ x) (int (length b)) (int (length b) + int (length x)) = x"
  by (simp add: slice_def Let_def)

lemma slice_prefix: "slice (b @ x) 0 (int (length b)) = b"
  by (simp add: slice_def Let_def)

lemma slice_all: "slice p 0 (int (length p)) = p"
  by (simp add: slice_def Let_def)

lemma no_extension_dotted:
  "no_extension
     \<lparr>startDot = int (length b), startPart = 0,
      end_ix = int (length b) + 1 + int (length x),
      matchedSlash = False,
      preDotState = (if b = [] then 0 else if hd b = CHAR_DOT then 1 else -1)\<rparr> \<longleftrightarrow>
   b = [] \<or> (b = [CHAR_DOT] \<and> x = [])"
proof (cases b)
  case Nil
  then show ?thesis by (simp add: no_extension_def)
next
  case (Cons c cs)
  then show ?thesis by (cases cs) (auto simp: no_extension_def)
qed

lemma extname_dotted:
  assumes "CHAR_FORWARD_SLASH \<notin> set b" and "CHAR_FORWARD_SLASH \<notin> set x" and "CHAR_DOT \<notin> set x"
  shows "extname (b @ CHAR_DOT # x) =
           (if b = [] \<or> (b = [CHAR_DOT] \<and> x = []) then [] else CHAR_DOT # x)"
proof -
  define s where "s =
     \<lparr>startDot = int (length b), startPart = 0,
      end_ix = int (length b) + 1 + int (length x),
      matchedSlash = False,
      preDotState = (if b = [] then 0 else if hd b = CHAR_DOT then (1::int) else -1)\<rparr>"
  have sc: "path_scan 0 (rev (b @ CHAR_DOT # x)) scan_init = s"
    unfolding s_def by (rule path_scan_dotted [OF assms])
  have fields: "startDot s = int (length b)" "end_ix s = int (length b) + 1 + int (length x)"
    by (simp_all add: s_def)
  have ne: "no_extension s \<longleftrightarrow> b = [] \<or> (b = [CHAR_DOT] \<and> x = [])"
    unfolding s_def by (rule no_extension_dotted)
  have sl: "slice (b @ CHAR_DOT # x) (int (length b)) (int (length b) + 1 + int (length x)) = CHAR_DOT # x"
    using slice_suffix [of b "CHAR_DOT # x"] by (simp add: add.assoc)
  have "extname (b @ CHAR_DOT # x) = (if no_extension s then [] else CHAR_DOT # x)"
    unfolding extname_def sc Let_def
    by (simp add: fields sl)
  then show ?thesis
    by (simp only: ne)
qed

lemma extname_dotless:
  assumes "CHAR_FORWARD_SLASH \<notin> set p" and "CHAR_DOT \<notin> set p"
  shows "extname p = []"
  using path_scan_dotless [OF assms] by (simp add: extname_def no_extension_def Let_def)

lemma parse_relative:
  assumes "hd p \<noteq> CHAR_FORWARD_SLASH" and "p \<noteq> []"
    and "path_scan 0 (rev p) scan_init = s" and "end_ix s \<noteq> -1" and "startPart s = 0"
  shows "name (parse p) = (if no_extension s then slice p 0 (end_ix s) else slice p 0 (startDot s))"
  using assms by (simp add: parse_def Let_def)

lemma parse_name_dotted:
  assumes "CHAR_FORWARD_SLASH \<notin> set b" and "CHAR_FORWARD_SLASH \<notin> set x" and "CHAR_DOT \<notin> set x"
  shows "name (parse (b @ CHAR_DOT # x)) =
           (if b = [] \<or> (b = [CHAR_DOT] \<and> x = []) then b @ CHAR_DOT # x else b)"
proof -
  define s where "s =
     \<lparr>startDot = int (length b), startPart = 0,
      end_ix = int (length b) + 1 + int (length x),
      matchedSlash = False,
      preDotState = (if b = [] then 0 else if hd b = CHAR_DOT then (1::int) else -1)\<rparr>"
  have sc: "path_scan 0 (rev (b @ CHAR_DOT # x)) scan_init = s"
    unfolding s_def by (rule path_scan_dotted [OF assms])
  have fields: "startDot s = int (length b)" "end_ix s = int (length b) + 1 + int (length x)"
    "startPart s = 0"
    by (simp_all add: s_def)
  have ne: "no_extension s \<longleftrightarrow> b = [] \<or> (b = [CHAR_DOT] \<and> x = [])"
    unfolding s_def by (rule no_extension_dotted)
  have rel: "hd (b @ CHAR_DOT # x) \<noteq> CHAR_FORWARD_SLASH"
    using assms(1) by (cases b) auto
  have whole: "slice (b @ CHAR_DOT # x) 0 (int (length b) + 1 + int (length x)) = b @ CHAR_DOT # x"
  proof -
    have "int (length b) + 1 + int (length x) = int (length (b @ CHAR_DOT # x))"
      by simp
    then show ?thesis by (simp only: slice_all)
  qed
  have stem: "slice (b @ CHAR_DOT # x) 0 (int (length b)) = b"
    by (rule slice_prefix)
  have "name (parse (b @ CHAR_DOT # x)) =
      (if no_extension s
       then slice (b @ CHAR_DOT # x) 0 (end_ix s)
       else slice (b @ CHAR_DOT # x) 0 (startDot s))"
    by (rule parse_relative [OF rel _ sc]) (simp_all add: fields)
  then show ?thesis
    by (simp only: ne fields whole stem)
qed

lemma toLowerCase_unit_fixes:
  assumes "of_char c < (65::nat)"
  shows "toLowerCase_unit c = c"
  using assms by (simp add: toLowerCase_unit_def Let_def)

lemma toLowerCase_unit_range:
  "toLowerCase_unit c = c \<or> (97::nat) \<le> of_char (toLowerCase_unit c)"
proof (cases "(65 \<le> (of_char c :: nat) \<and> (of_char c :: nat) \<le> 90) \<or>
              (192 \<le> (of_char c :: nat) \<and> (of_char c :: nat) \<le> 222 \<and> (of_char c :: nat) \<noteq> 215)")
  case True
  then have "toLowerCase_unit c = char_of ((of_char c :: nat) + 32)"
    by (simp add: toLowerCase_unit_def Let_def)
  moreover have "(of_char (char_of ((of_char c :: nat) + 32) :: char) :: nat) = (of_char c + 32) mod 256"
    by simp
  moreover have "((of_char c :: nat) + 32) mod 256 = of_char c + 32"
    using True by auto
  ultimately show ?thesis using True by auto
next
  case False
  then show ?thesis by (simp add: toLowerCase_unit_def Let_def)
qed

lemma toLowerCase_unit_dot: "toLowerCase_unit c = CHAR_DOT \<longleftrightarrow> c = CHAR_DOT"
proof
  assume "c = CHAR_DOT"
  then show "toLowerCase_unit c = CHAR_DOT"
    by (simp add: toLowerCase_unit_fixes CHAR_DOT_def)
next
  assume a: "toLowerCase_unit c = CHAR_DOT"
  from toLowerCase_unit_range [of c] show "c = CHAR_DOT"
  proof
    assume "toLowerCase_unit c = c"
    with a show ?thesis by simp
  next
    assume "(97::nat) \<le> of_char (toLowerCase_unit c)"
    with a show ?thesis by (simp add: CHAR_DOT_def)
  qed
qed

lemma toLowerCase_unit_slash: "toLowerCase_unit c = CHAR_FORWARD_SLASH \<longleftrightarrow> c = CHAR_FORWARD_SLASH"
proof
  assume "c = CHAR_FORWARD_SLASH"
  then show "toLowerCase_unit c = CHAR_FORWARD_SLASH"
    by (simp add: toLowerCase_unit_fixes CHAR_FORWARD_SLASH_def)
next
  assume a: "toLowerCase_unit c = CHAR_FORWARD_SLASH"
  from toLowerCase_unit_range [of c] show "c = CHAR_FORWARD_SLASH"
  proof
    assume "toLowerCase_unit c = c"
    with a show ?thesis by simp
  next
    assume "(97::nat) \<le> of_char (toLowerCase_unit c)"
    with a show ?thesis by (simp add: CHAR_FORWARD_SLASH_def)
  qed
qed

lemma toLowerCase_unit_dot': "CHAR_DOT = toLowerCase_unit c \<longleftrightarrow> CHAR_DOT = c"
  using toLowerCase_unit_dot [of c] by auto

lemma toLowerCase_unit_slash': "CHAR_FORWARD_SLASH = toLowerCase_unit c \<longleftrightarrow> CHAR_FORWARD_SLASH = c"
  using toLowerCase_unit_slash [of c] by auto

lemma toLowerCase_keeps_dots: "CHAR_DOT \<in> set (toLowerCase s) \<longleftrightarrow> CHAR_DOT \<in> set s"
  by (induction s) (auto simp: toLowerCase_def toLowerCase_unit_dot')

lemma toLowerCase_keeps_slashes:
  "CHAR_FORWARD_SLASH \<in> set (toLowerCase s) \<longleftrightarrow> CHAR_FORWARD_SLASH \<in> set s"
  by (induction s) (auto simp: toLowerCase_def toLowerCase_unit_slash')

lemma toLowerCase_length: "length (toLowerCase s) = length s"
  by (simp add: toLowerCase_def)

lemma supported_format_shape:
  assumes "y \<in> set (supportedFormats new_converter)"
  shows "\<exists>r. y = CHAR_DOT # r \<and> r \<noteq> [] \<and> CHAR_DOT \<notin> set r \<and> CHAR_FORWARD_SLASH \<notin> set r"
  using assms by (auto simp: new_converter_def CHAR_DOT_def CHAR_FORWARD_SLASH_def)

lemma extension_shape:
  assumes "toLowerCase x \<in> set (supportedFormats new_converter)"
  shows "\<exists>r. x = CHAR_DOT # r \<and> r \<noteq> [] \<and> CHAR_DOT \<notin> set r \<and> CHAR_FORWARD_SLASH \<notin> set r"
proof -
  from supported_format_shape [OF assms] obtain r where
    r: "toLowerCase x = CHAR_DOT # r" "r \<noteq> []" "CHAR_DOT \<notin> set r" "CHAR_FORWARD_SLASH \<notin> set r"
    by blast
  from r(1) obtain c y where x: "x = c # y" "toLowerCase_unit c = CHAR_DOT" "toLowerCase y = r"
    by (cases x) (auto simp: toLowerCase_def)
  from x(2) have c: "c = CHAR_DOT" by (simp add: toLowerCase_unit_dot)
  from r(2) x(3) have "y \<noteq> []" by (auto simp: toLowerCase_def)
  moreover from r(3) x(3) have "CHAR_DOT \<notin> set y"
    using toLowerCase_keeps_dots [of y] by simp
  moreover from r(4) x(3) have "CHAR_FORWARD_SLASH \<notin> set y"
    using toLowerCase_keeps_slashes [of y] by simp
  ultimately show ?thesis using x(1) c by simp
qed

lemma normalize_round_plain:
  assumes "c \<noteq> CHAR_FORWARD_SLASH"
  shows "normalize_round a p i c st =
           st\<lparr>code := c, dots := (if c = CHAR_DOT \<and> dots st \<noteq> -1 then dots st + 1 else -1)\<rparr>"
  using assms by (simp add: normalize_round_def isPosixPathSeparator_def Let_def)

lemma normalize_loop_segment:
  assumes "CHAR_FORWARD_SLASH \<notin> set cs" and "cs \<noteq> []" and "last cs \<noteq> CHAR_DOT"
  shows "normalize_loop a p cs st = normalize_loop a p [] (st\<lparr>code := last cs, dots := -1\<rparr>)"
  using assms
proof (induction cs arbitrary: st)
  case Nil
  then show ?case by simp
next
  case (Cons c cs)
  have c: "c \<noteq> CHAR_FORWARD_SLASH" using Cons.prems(1) by auto
  let ?st = "st\<lparr>code := c, dots := (if c = CHAR_DOT \<and> dots st \<noteq> -1 then dots st + 1 else -1)\<rparr>"
  have step: "normalize_loop a p (c # cs) st = normalize_loop a p cs ?st"
    by (simp add: normalize_round_plain [OF c])
  show ?case
  proof (cases "cs = []")
    case True
    with step Cons.prems(3) show ?thesis by simp
  next
    case False
    with step Cons.IH [of ?st] Cons.prems show ?thesis by simp
  qed
qed

lemma normalize_loop_closing:
  assumes "code st \<noteq> CHAR_FORWARD_SLASH" and "dots st = -1" and "res st \<noteq> []"
    and "lastSlash st \<noteq> int (length p) - 1"
  shows "normalize_loop a p [] st =
           res st @ ''/'' @ slice p (lastSlash st + 1) (int (length p))"
  using assms by (simp add: normalize_round_def isPosixPathSeparator_def Let_def)

lemma normalize_loop_output_prefix:
  assumes "p = ''./output/'' @ n"
  shows "normalize_loop True p (''./output/'' @ n)
           \<lparr>res = [], lastSegmentLength = 0, lastSlash = -1, dots = 0, code = CHR 0x00\<rparr> =
         normalize_loop True p n
           \<lparr>res = ''output'', lastSegmentLength = 6, lastSlash = 8, dots = 0, code = CHAR_FORWARD_SLASH\<rparr>"
proof -
  have len: "int (length p) = 9 + int (length n)"
    using assms by simp
  have seg: "slice p 2 8 = ''output''"
    using assms by (simp add: slice_def Let_def)
  show ?thesis
    by (simp add: normalize_round_def isPosixPathSeparator_def Let_def len seg
        CHAR_DOT_def CHAR_FORWARD_SLASH_def)
qed

lemma supportedFormats_recognized: "supportedFormats new_converter = recognized_extensions"
  by (simp add: new_converter_def recognized_extensions_def)

lemma is_supported_imp_recognized:
  assumes "CHAR_FORWARD_SLASH \<notin> set f" and "is_supported new_converter f"
  shows "has_recognized_extension f \<and> toLowerCase f \<notin> set recognized_extensions"
proof -
  from assms(2) have m: "toLowerCase (extname f) \<in> set (supportedFormats new_converter)"
    by (simp add: is_supported_def Let_def)
  then have ne: "extname f \<noteq> []"
    by (auto simp: toLowerCase_def new_converter_def)
  have "CHAR_DOT \<in> set f"
  proof (rule ccontr)
    assume "CHAR_DOT \<notin> set f"
    with assms(1) have "extname f = []" by (rule extname_dotless)
    with ne show False by simp
  qed
  then obtain b x where f: "f = b @ CHAR_DOT # x" and x: "CHAR_DOT \<notin> set x"
    using split_list_last [of CHAR_DOT f] by blast
  from assms(1) f have sb: "CHAR_FORWARD_SLASH \<notin> set b" and sx: "CHAR_FORWARD_SLASH \<notin> set x"
    by auto
  have e: "extname f = (if b = [] \<or> (b = [CHAR_DOT] \<and> x = []) then [] else CHAR_DOT # x)"
    unfolding f by (rule extname_dotted [OF sb sx x])
  with ne have b: "b \<noteq> []" and ex: "extname f = CHAR_DOT # x"
    by (auto split: if_splits)
  let ?y = "toLowerCase (CHAR_DOT # x)"
  have "?y \<in> set recognized_extensions"
    using m ex by (simp add: supportedFormats_recognized)
  moreover have "has_extension f ?y"
    by (simp add: has_extension_def f toLowerCase_length)
  ultimately have r: "has_recognized_extension f"
    unfolding has_recognized_extension_def by blast
  have "toLowerCase f \<notin> set recognized_extensions"
  proof
    assume "toLowerCase f \<in> set recognized_extensions"
    then have "toLowerCase f \<in> set (supportedFormats new_converter)"
      by (simp add: supportedFormats_recognized)
    from extension_shape [OF this] obtain r where
      r: "f = CHAR_DOT # r" "CHAR_DOT \<notin> set r"
      by blast
    from b obtain c b' where b': "b = c # b'" by (cases b) auto
    from r(1) f b' have "r = b' @ CHAR_DOT # x" by simp
    with r(2) show False by simp
  qed
  with r show ?thesis by simp
qed

lemma recognized_imp_is_supported:
  assumes "CHAR_FORWARD_SLASH \<notin> set f" and "has_recognized_extension f"
    and "toLowerCase f \<notin> set recognized_extensions"
  shows "is_supported new_converter f"
proof -
  from assms(2) obtain y where y: "y \<in> set (supportedFormats new_converter)"
    and le: "length y \<le> length f"
    and low: "toLowerCase (drop (length f - length y) f) = y"
    by (auto simp: has_recognized_extension_def has_extension_def supportedFormats_recognized)
  have len: "length y < length f"
  proof (rule ccontr)
    assume "\<not> length y < length f"
    with le have "length f - length y = 0" by simp
    with low have "toLowerCase f = y" by simp
    with y assms(3) show False by (simp add: supportedFormats_recognized)
  qed
  define b where "b = take (length f - length y) f"
  define s where "s = drop (length f - length y) f"
  have f: "f = b @ s" by (simp add: b_def s_def)
  have b: "b \<noteq> []" using len by (auto simp: b_def)
  from y low have "toLowerCase s \<in> set (supportedFormats new_converter)"
    by (simp add: s_def)
  from extension_shape [OF this] obtain r where
    r: "s = CHAR_DOT # r" "r \<noteq> []" "CHAR_DOT \<notin> set r" "CHAR_FORWARD_SLASH \<notin> set r"
    by blast
  from assms(1) f have sb: "CHAR_FORWARD_SLASH \<notin> set b" by simp
  have "extname f = CHAR_DOT # r"
    unfolding f r(1) using extname_dotted [OF sb r(4) r(3)] b r(2) by simp
  then have "toLowerCase (extname f) = y"
    using low by (simp add: s_def [symmetric] r(1))
  with y show ?thesis by (simp add: is_supported_def Let_def)
qed

lemma is_supported_iff_recognized:
  assumes "CHAR_FORWARD_SLASH \<notin> set f"
  shows "is_supported new_converter f \<longleftrightarrow>
           has_recognized_extension f \<and> toLowerCase f \<notin> set recognized_extensions"
  using is_supported_imp_recognized [OF assms] recognized_imp_is_supported [OF assms] by blast

lemma join_output_dir:
  assumes "CHAR_FORWARD_SLASH \<notin> set n" and "n \<noteq> []" and "last n \<noteq> CHAR_DOT"
  shows "join [''./output'', n] = ''output/'' @ n"
proof -
  define p where "p = ''./output/'' @ n"
  let ?st = "\<lparr>res = ''output'', lastSegmentLength = 6, lastSlash = 8, dots = 0,
              code = CHAR_FORWARD_SLASH\<rparr>"
  have j: "join [''./output'', n] = normalize_path p"
    using assms(2) by (simp add: join_def p_def)
  have ln: "last n \<noteq> CHAR_FORWARD_SLASH"
  proof
    assume "last n = CHAR_FORWARD_SLASH"
    with last_in_set [OF assms(2)] have "CHAR_FORWARD_SLASH \<in> set n" by simp
    with assms(1) show False by simp
  qed
  have "normalizeString p True = normalize_loop True p n ?st"
    unfolding normalizeString_def
    using normalize_loop_output_prefix [of p n] by (simp add: p_def)
  also have "\<dots> = normalize_loop True p [] (?st\<lparr>code := last n, dots := -1\<rparr>)"
    by (rule normalize_loop_segment [OF assms])
  also have "\<dots> = ''output'' @ ''/'' @ slice p 9 (int (length p))"
    using ln assms(2) by (subst normalize_loop_closing) (simp_all add: p_def)
  also have "slice p 9 (int (length p)) = n"
    using slice_suffix [of "''./output/''" n] by (simp add: p_def)
  finally have ns: "normalizeString p True = ''output/'' @ n"
    by simp
  have "hd p \<noteq> CHAR_FORWARD_SLASH"
    by (simp add: p_def CHAR_FORWARD_SLASH_def)
  moreover have "last p \<noteq> CHAR_FORWARD_SLASH"
    using ln assms(2) by (simp add: p_def)
  moreover have "length p \<noteq> 0"
    by (simp add: p_def)
  ultimately have "normalize_path p = ''output/'' @ n"
    by (simp add: normalize_path_def Let_def ns)
  with j show ?thesis by simp
qed

lemma outputPath_mp4:
  assumes "CHAR_FORWARD_SLASH \<notin> set stem"
  shows "join [outputDir new_converter, stem @ ''.mp4''] = ''output/'' @ stem @ ''.mp4''"
proof -
  have "CHAR_FORWARD_SLASH \<notin> set (stem @ ''.mp4'')"
    using assms by (simp add: CHAR_FORWARD_SLASH_def)
  moreover have "stem @ ''.mp4'' \<noteq> []" by simp
  moreover have "last (stem @ ''.mp4'') \<noteq> CHAR_DOT"
    by (simp add: CHAR_DOT_def)
  ultimately have "join [''./output'', stem @ ''.mp4''] = ''output/'' @ stem @ ''.mp4''"
    by (rule join_output_dir)
  then show ?thesis by (simp add: new_converter_def)
qed

section \<open>The batch loop\<close>

lemma sample_files:
  "getInputFiles new_converter sample_env [ConsoleLog Batch_start] =
     ([''clip.webm'', ''broken.MKV''], [ConsoleLog Batch_start, Readdir ''./input''])"
  by code_simp

lemma sample_paths:
  "map (\<lambda>f. (inputPath new_converter f, outputPath new_converter f)) [''clip.webm'', ''broken.MKV''] =
     [(''input/clip.webm'', ''output/clip.mp4''), (''input/broken.MKV'', ''output/broken.mp4'')]"
  by code_simp

lemma sample_loop:
  "fst (convert_loop new_converter sample_env [''clip.webm'', ''broken.MKV'']
          (\<lparr>success = [], failed = []\<rparr>,
           [ConsoleLog Batch_start, Readdir ''./input''] @ [ConsoleLog (Files_found (length [''clip.webm'', ''broken.MKV'']))]
              @ map (\<lambda>f. ConsoleLog (File_item f)) [''clip.webm'', ''broken.MKV''])) =
     \<lparr>success = [(''clip.webm'', ''output/clip.mp4'')], failed = [(''broken.MKV'', ''invalid frame'')]\<rparr>"
  by code_simp

text \<open>
  Claim C1. Whatever list of files the enumeration returns and whatever the engine
  answers for each of them, the loop of \<open>convertAll\<close> leaves exactly one result per
  file: the success and failure lists together are as long as the file list and
  hold the same file names, the engine has been invoked once for every file, in
  order, so that a failure does not keep the later files from being processed; and
  when there is at least one file the two counts that \<open>convertAll\<close> prints are the
  lengths of these lists.
\<close>

theorem convertAll_one_result_per_file:
  assumes "getInputFiles this e (t @ [ConsoleLog Batch_start]) = (files, t1)"
  shows "let rs = fst (convert_loop this e files
                   (\<lparr>success = [], failed = []\<rparr>,
                    t1 @ [ConsoleLog (Files_found (length files))]
                       @ map (\<lambda>f. ConsoleLog (File_item f)) files))
         in length (success rs) + length (failed rs) = length files \<and>
            mset (map fst (success rs)) + mset (map fst (failed rs)) = mset files \<and>
            engine_runs (convertAll this e t) =
              engine_runs t @ map (\<lambda>f. (inputPath this f, outputPath this f)) files \<and>
            (files \<noteq> [] \<longrightarrow>
               success_counts (convertAll this e t) = success_counts t @ [length (success rs)] \<and>
               failed_counts (convertAll this e t) = failed_counts t @ [length (failed rs)])"
proof -
  define t3 where "t3 = t1 @ [ConsoleLog (Files_found (length files))]
                       @ map (\<lambda>f. ConsoleLog (File_item f)) files"
  obtain rs t2 where l: "convert_loop this e files (\<lparr>success = [], failed = []\<rparr>, t3) = (rs, t2)"
    by (cases "convert_loop this e files (\<lparr>success = [], failed = []\<rparr>, t3)")
  have n: "length (success rs) + length (failed rs) = length files"
    using convert_loop_count [of this e files "\<lparr>success = [], failed = []\<rparr>" t3] l by simp
  have m: "mset (map fst (success rs)) + mset (map fst (failed rs)) = mset files"
    using convert_loop_inputs [of this e files "\<lparr>success = [], failed = []\<rparr>" t3] l by simp
  have r: "engine_runs (convertAll this e t) =
      engine_runs t @ map (\<lambda>f. (inputPath this f, outputPath this f)) files"
    using convertAll_engine_runs [of this e t] assms by simp
  have s1: "success_counts t1 = success_counts t"
    using getInputFiles_success_counts [of this e "t @ [ConsoleLog Batch_start]"] assms
    by (simp add: success_counts_append)
  have f1: "failed_counts t1 = failed_counts t"
    using getInputFiles_failed_counts [of this e "t @ [ConsoleLog Batch_start]"] assms
    by (simp add: failed_counts_append)
  have s2: "success_counts t2 = success_counts t"
    using convert_loop_success_counts [of this e files "\<lparr>success = [], failed = []\<rparr>" t3] l s1
    by (simp add: t3_def success_counts_append success_counts_File_item)
  have f2: "failed_counts t2 = failed_counts t"
    using convert_loop_failed_counts [of this e files "\<lparr>success = [], failed = []\<rparr>" t3] l f1
    by (simp add: t3_def failed_counts_append failed_counts_File_item)
  have c: "files \<noteq> [] \<Longrightarrow>
      success_counts (convertAll this e t) = success_counts t @ [length (success rs)] \<and>
      failed_counts (convertAll this e t) = failed_counts t @ [length (failed rs)]"
    using assms l s2 f2
    by (simp add: convertAll_def Let_def t3_def success_counts_append failed_counts_append
        success_counts_Failed_item failed_counts_Failed_item)
  from n m r c l show ?thesis
    by (simp add: Let_def t3_def)
qed

theorem convertAll_one_result_per_file_witness:
  "getInputFiles new_converter sample_env ([] @ [ConsoleLog Batch_start]) =
     ([''clip.webm'', ''broken.MKV''], [ConsoleLog Batch_start, Readdir ''./input'']) \<and>
   engine_runs (convertAll new_converter sample_env []) =
     [(''input/clip.webm'', ''output/clip.mp4''), (''input/broken.MKV'', ''output/broken.mp4'')] \<and>
   success_counts (convertAll new_converter sample_env []) = [1] \<and>
   failed_counts (convertAll new_converter sample_env []) = [1]"
proof -
  have h: "getInputFiles new_converter sample_env ([] @ [ConsoleLog Batch_start]) =
     ([''clip.webm'', ''broken.MKV''], [ConsoleLog Batch_start, Readdir ''./input''])"
    using sample_files by simp
  show ?thesis
    using h convertAll_one_result_per_file [OF h] sample_paths sample_loop
    by (simp add: Let_def)
qed

section \<open>Running without the engine\<close>

text \<open>
  Claim C4. When the availability probe of \<open>checkFFmpeg\<close> fails, \<open>run\<close> ends right
  after the two diagnostic lines: the trace gains the banner, the probe and the
  diagnostics and nothing else, so no directory is created, no directory is listed
  and the engine is not invoked.
\<close>

theorem run_stops_without_engine:
  assumes "getAvailableCodecs e (t @ [ConsoleLog Banner, ConsoleLog Rule]) = Some err"
  shows "run this e t =
           t @ [ConsoleLog Banner, ConsoleLog Rule, GetAvailableCodecs,
                ConsoleError FFmpeg_unavailable, ConsoleLog Install_hint] \<and>
         fs_writes (run this e t) = fs_writes t \<and>
         listings (run this e t) = listings t \<and>
         engine_runs (run this e t) = engine_runs t"
  using assms
  by (simp add: run_def checkFFmpeg_def fs_writes_append listings_append engine_runs_append)

theorem run_stops_without_engine_witness:
  "getAvailableCodecs env_without_engine ([] @ [ConsoleLog Banner, ConsoleLog Rule]) =
     Some ''spawn ffmpeg ENOENT'' \<and>
   run new_converter env_without_engine [] =
     [ConsoleLog Banner, ConsoleLog Rule, GetAvailableCodecs,
      ConsoleError FFmpeg_unavailable, ConsoleLog Install_hint] \<and>
   fs_writes (run new_converter env_without_engine []) = [] \<and>
   listings (run new_converter env_without_engine []) = [] \<and>
   engine_runs (run new_converter env_without_engine []) = []"
proof -
  have h: "getAvailableCodecs env_without_engine ([] @ [ConsoleLog Banner, ConsoleLog Rule]) =
     Some ''spawn ffmpeg ENOENT''"
    by (simp add: env_without_engine_def sample_env_def)
  show ?thesis
    using h run_stops_without_engine [OF h, of new_converter] by simp
qed

section \<open>An input directory without matching files\<close>

text \<open>
  Claim C5. When the enumeration returns no file, \<open>convertAll\<close> returns after the
  "nothing found" message and the hint: the engine is not invoked and no line of
  the console reports a success or a failure of a conversion (the summary with its
  counts is not printed either). When the directory could be read, nothing at all
  is written to the error stream.
\<close>

theorem convertAll_nothing_to_do:
  assumes "fst (getInputFiles this e (t @ [ConsoleLog Batch_start])) = []"
  shows "convertAll this e t =
           snd (getInputFiles this e (t @ [ConsoleLog Batch_start])) @
           [ConsoleLog No_files_found, ConsoleLog (Put_files_hint (inputDir this))] \<and>
         engine_runs (convertAll this e t) = engine_runs t \<and>
         result_lines (convertAll this e t) = result_lines t \<and>
         (\<forall>entries. readdir e (t @ [ConsoleLog Batch_start]) (inputDir this) = Inr entries \<longrightarrow>
            convertAll this e t =
              t @ [ConsoleLog Batch_start, Readdir (inputDir this),
                   ConsoleLog No_files_found, ConsoleLog (Put_files_hint (inputDir this))] \<and>
            console_errors (convertAll this e t) = console_errors t)"
proof -
  obtain files t1 where g: "getInputFiles this e (t @ [ConsoleLog Batch_start]) = (files, t1)"
    by (cases "getInputFiles this e (t @ [ConsoleLog Batch_start])")
  with assms have e: "files = []" by simp
  have a: "convertAll this e t =
      t1 @ [ConsoleLog No_files_found, ConsoleLog (Put_files_hint (inputDir this))]"
    using g e by (simp add: convertAll_def)
  have b: "engine_runs (convertAll this e t) = engine_runs t"
    using convertAll_engine_runs [of this e t] g e by simp
  have c: "result_lines (convertAll this e t) = result_lines t"
    using getInputFiles_result_lines [of this e "t @ [ConsoleLog Batch_start]"] g a
    by (simp add: result_lines_append)
  have d: "readdir e (t @ [ConsoleLog Batch_start]) (inputDir this) = Inr entries \<Longrightarrow>
      convertAll this e t =
        t @ [ConsoleLog Batch_start, Readdir (inputDir this),
             ConsoleLog No_files_found, ConsoleLog (Put_files_hint (inputDir this))] \<and>
      console_errors (convertAll this e t) = console_errors t" for entries
    using g a by (auto simp: getInputFiles_def Let_def console_errors_append)
  have s: "snd (getInputFiles this e (t @ [ConsoleLog Batch_start])) = t1"
    using g by simp
  show ?thesis
  proof (intro conjI allI impI)
    show "convertAll this e t =
           snd (getInputFiles this e (t @ [ConsoleLog Batch_start])) @
           [ConsoleLog No_files_found, ConsoleLog (Put_files_hint (inputDir this))]"
      using a s by simp
    show "engine_runs (convertAll this e t) = engine_runs t" by (rule b)
    show "result_lines (convertAll this e t) = result_lines t" by (rule c)
  next
    fix entries
    assume r: "readdir e (t @ [ConsoleLog Batch_start]) (inputDir this) = Inr entries"
    show "convertAll this e t =
        t @ [ConsoleLog Batch_start, Readdir (inputDir this),
             ConsoleLog No_files_found, ConsoleLog (Put_files_hint (inputDir this))]"
      using d [OF r] by (rule conjunct1)
    show "console_errors (convertAll this e t) = console_errors t"
      using d [OF r] by (rule conjunct2)
  qed
qed

theorem convertAll_nothing_to_do_witness:
  "fst (getInputFiles new_converter env_nothing_to_do ([] @ [ConsoleLog Batch_start])) = [] \<and>
   readdir env_nothing_to_do ([] @ [ConsoleLog Batch_start]) (inputDir new_converter) =
     Inr [\<lparr>d_name = ''notes.txt'', isDirectory = False\<rparr>] \<and>
   convertAll new_converter env_nothing_to_do [] =
     [ConsoleLog Batch_start, Readdir ''./input'',
      ConsoleLog No_files_found, ConsoleLog (Put_files_hint ''./input'')] \<and>
   engine_runs (convertAll new_converter env_nothing_to_do []) = [] \<and>
   result_lines (convertAll new_converter env_nothing_to_do []) = [] \<and>
   console_errors (convertAll new_converter env_nothing_to_do []) = []"
proof -
  have h: "fst (getInputFiles new_converter env_nothing_to_do ([] @ [ConsoleLog Batch_start])) = []"
    by code_simp
  have r: "readdir env_nothing_to_do ([] @ [ConsoleLog Batch_start]) (inputDir new_converter) =
     Inr [\<lparr>d_name = ''notes.txt'', isDirectory = False\<rparr>]"
    by (simp add: env_nothing_to_do_def sample_env_def)
  have d: "inputDir new_converter = ''./input''"
    by (simp add: new_converter_def)
  note n = convertAll_nothing_to_do [OF h]
  from n have a: "engine_runs (convertAll new_converter env_nothing_to_do []) = engine_runs []"
    by (rule conjunct1 [OF conjunct2])
  from n have b: "result_lines (convertAll new_converter env_nothing_to_do []) = result_lines []"
    by (rule conjunct1 [OF conjunct2 [OF conjunct2]])
  from n r have c: "convertAll new_converter env_nothing_to_do [] =
        [] @ [ConsoleLog Batch_start, Readdir (inputDir new_converter),
             ConsoleLog No_files_found, ConsoleLog (Put_files_hint (inputDir new_converter))] \<and>
      console_errors (convertAll new_converter env_nothing_to_do []) = console_errors []"
    by blast
  from h r a b c show ?thesis
    by (simp add: d)
qed

section \<open>An unreadable input directory\<close>

text \<open>
  Claim C6. When \<open>fs.readdir\<close> rejects, \<open>getInputFiles\<close> prints the error and
  returns the empty list; its caller \<open>convertAll\<close> carries on as with an empty
  directory and returns normally.
\<close>

theorem getInputFiles_read_failure:
  "(readdir e t (inputDir this) = Inl message \<longrightarrow>
      getInputFiles this e t =
        ([], t @ [Readdir (inputDir this), ConsoleError (Read_input_failed message)])) \<and>
   (readdir e (t @ [ConsoleLog Batch_start]) (inputDir this) = Inl message \<longrightarrow>
      convertAll this e t =
        t @ [ConsoleLog Batch_start, Readdir (inputDir this),
             ConsoleError (Read_input_failed message),
             ConsoleLog No_files_found, ConsoleLog (Put_files_hint (inputDir this))])"
  by (simp add: getInputFiles_def convertAll_def)

theorem getInputFiles_read_failure_witness:
  "readdir env_unreadable_input [] (inputDir new_converter) = Inl ''ENOENT: no such file or directory'' \<and>
   readdir env_unreadable_input ([] @ [ConsoleLog Batch_start]) (inputDir new_converter) =
     Inl ''ENOENT: no such file or directory'' \<and>
   getInputFiles new_converter env_unreadable_input [] =
     ([], [Readdir ''./input'', ConsoleError (Read_input_failed ''ENOENT: no such file or directory'')]) \<and>
   convertAll new_converter env_unreadable_input [] =
     [ConsoleLog Batch_start, Readdir ''./input'',
      ConsoleError (Read_input_failed ''ENOENT: no such file or directory''),
      ConsoleLog No_files_found, ConsoleLog (Put_files_hint ''./input'')]"
proof -
  have h1: "readdir env_unreadable_input [] (inputDir new_converter) =
      Inl ''ENOENT: no such file or directory''"
    by (simp add: env_unreadable_input_def sample_env_def)
  have h2: "readdir env_unreadable_input ([] @ [ConsoleLog Batch_start]) (inputDir new_converter) =
      Inl ''ENOENT: no such file or directory''"
    by (simp add: env_unreadable_input_def sample_env_def)
  show ?thesis
    using h1 h2
      getInputFiles_read_failure [of env_unreadable_input "[]" new_converter
        "''ENOENT: no such file or directory''"]
    by (simp add: new_converter_def)
qed

section \<open>A failing directory creation\<close>

lemma createDirectories_failure_last:
  assumes "ensureDir e t (inputDir this) = Some message \<or>
           (ensureDir e t (inputDir this) = None \<and>
            ensureDir e (t @ [EnsureDir (inputDir this)]) (outputDir this) = Some message)"
  shows "last (createDirectories this e t) = ConsoleError (Create_directories_failed message)"
  using assms by (auto simp: createDirectories_def Let_def)

lemma readonly_run:
  "run new_converter env_readonly_disk [] =
     [ConsoleLog Banner, ConsoleLog Rule, GetAvailableCodecs, ConsoleLog FFmpeg_installed,
      EnsureDir ''./input'', ConsoleError (Create_directories_failed ''EACCES: permission denied''),
      ConsoleLog Batch_start, Readdir ''./input'',
      ConsoleLog (Files_found 2), ConsoleLog (File_item ''clip.webm''), ConsoleLog (File_item ''broken.MKV''),
      ConsoleLog (Converting ''clip.webm'' ''clip.mp4''),
      FfmpegRun ''input/clip.webm'' outputOptions ''output/clip.mp4'',
      ConsoleLog (Convert_done ''clip.mp4''),
      ConsoleLog (Converting ''broken.MKV'' ''broken.mp4''),
      FfmpegRun ''input/broken.MKV'' outputOptions ''output/broken.mp4'',
      ConsoleLog (Command_line ''ffmpeg -i input/broken.MKV''),
      ConsoleError (Convert_failed ''broken.MKV'' ''invalid frame''),
      ConsoleLog Results_header, ConsoleLog (Success_count 1), ConsoleLog (Failed_count 1),
      ConsoleLog Failed_header, ConsoleLog (Failed_item ''broken.MKV'' ''invalid frame'')]"
  by code_simp

text \<open>
  Claim C7. When one of the two \<open>ensureDir\<close> calls of \<open>createDirectories\<close> rejects,
  the failure is printed and swallowed: \<open>run\<close> goes on with \<open>convertAll\<close>, whose
  first actions are the start line and the listing of the input directory, and the
  engine is invoked for every file that the listing yields.
\<close>

theorem run_continues_after_createDirectories_failure:
  assumes "getAvailableCodecs e (t @ [ConsoleLog Banner, ConsoleLog Rule]) = None"
    and "t1 = t @ [ConsoleLog Banner, ConsoleLog Rule, GetAvailableCodecs, ConsoleLog FFmpeg_installed]"
    and "ensureDir e t1 (inputDir this) = Some message \<or>
         (ensureDir e t1 (inputDir this) = None \<and>
          ensureDir e (t1 @ [EnsureDir (inputDir this)]) (outputDir this) = Some message)"
  shows "last (createDirectories this e t1) = ConsoleError (Create_directories_failed message) \<and>
         run this e t = convertAll this e (createDirectories this e t1) \<and>
         prefix (createDirectories this e t1 @ [ConsoleLog Batch_start, Readdir (inputDir this)])
           (run this e t) \<and>
         engine_runs (run this e t) =
           engine_runs t @
           map (\<lambda>f. (inputPath this f, outputPath this f))
             (fst (getInputFiles this e (createDirectories this e t1 @ [ConsoleLog Batch_start])))"
proof -
  have r: "run this e t = convertAll this e (createDirectories this e t1)"
    using assms(1,2) by (simp add: run_def checkFFmpeg_def)
  have l: "last (createDirectories this e t1) = ConsoleError (Create_directories_failed message)"
    using assms(3) by (rule createDirectories_failure_last)
  have p: "prefix (createDirectories this e t1 @ [ConsoleLog Batch_start, Readdir (inputDir this)])
      (run this e t)"
    unfolding r by (rule convertAll_starts_with_listing)
  have "engine_runs (createDirectories this e t1) = engine_runs t"
    using assms(2) by (simp add: createDirectories_engine_runs engine_runs_append)
  then have g: "engine_runs (run this e t) =
      engine_runs t @
      map (\<lambda>f. (inputPath this f, outputPath this f))
        (fst (getInputFiles this e (createDirectories this e t1 @ [ConsoleLog Batch_start])))"
    unfolding r by (simp add: convertAll_engine_runs)
  from l r p g show ?thesis by blast
qed

theorem run_continues_after_createDirectories_failure_witness:
  "getAvailableCodecs env_readonly_disk ([] @ [ConsoleLog Banner, ConsoleLog Rule]) = None \<and>
   ensureDir env_readonly_disk
     ([] @ [ConsoleLog Banner, ConsoleLog Rule, GetAvailableCodecs, ConsoleLog FFmpeg_installed])
     (inputDir new_converter) = Some ''EACCES: permission denied'' \<and>
   prefix
     (createDirectories new_converter env_readonly_disk
        ([] @ [ConsoleLog Banner, ConsoleLog Rule, GetAvailableCodecs, ConsoleLog FFmpeg_installed]) @
      [ConsoleLog Batch_start, Readdir (inputDir new_converter)])
     (run new_converter env_readonly_disk []) \<and>
   engine_runs (run new_converter env_readonly_disk []) =
     [(''input/clip.webm'', ''output/clip.mp4''), (''input/broken.MKV'', ''output/broken.mp4'')]"
proof -
  let ?t1 = "[] @ [ConsoleLog Banner, ConsoleLog Rule, GetAvailableCodecs, ConsoleLog FFmpeg_installed]"
  have h1: "getAvailableCodecs env_readonly_disk ([] @ [ConsoleLog Banner, ConsoleLog Rule]) = None"
    by (simp add: env_readonly_disk_def sample_env_def)
  have h2: "ensureDir env_readonly_disk ?t1 (inputDir new_converter) = Some ''EACCES: permission denied''"
    by (simp add: env_readonly_disk_def sample_env_def)
  have h3: "ensureDir env_readonly_disk ?t1 (inputDir new_converter) = Some ''EACCES: permission denied'' \<or>
      (ensureDir env_readonly_disk ?t1 (inputDir new_converter) = None \<and>
       ensureDir env_readonly_disk (?t1 @ [EnsureDir (inputDir new_converter)]) (outputDir new_converter) =
         Some ''EACCES: permission denied'')"
    using h2 by (rule disjI1)
  note c = run_continues_after_createDirectories_failure [OF h1 refl h3]
  from c have p: "prefix
     (createDirectories new_converter env_readonly_disk ?t1 @
      [ConsoleLog Batch_start, Readdir (inputDir new_converter)])
     (run new_converter env_readonly_disk [])"
    by blast
  have "engine_runs (run new_converter env_readonly_disk []) =
     [(''input/clip.webm'', ''output/clip.mp4''), (''input/broken.MKV'', ''output/broken.mp4'')]"
    unfolding readonly_run by simp
  with h1 h2 p show ?thesis by blast
qed
section \<open>Directories in the input directory\<close>

lemma holiday_supported:
  "toLowerCase (extname ''holiday.webm'') \<in> set (supportedFormats new_converter)"
  by code_simp

text \<open>
  Claim C8 says that an entry which is a directory is never returned. The listing
  that \<open>getInputFiles\<close> reads carries names only, so the kind of an entry cannot
  enter the decision: a directory named \<open>holiday.webm\<close> is returned.
\<close>

theorem getInputFiles_returns_directory:
  "isDirectory \<lparr>d_name = ''holiday.webm'', isDirectory = True\<rparr> \<and>
   readdir env_directory_entry [] (inputDir new_converter) =
     Inr [\<lparr>d_name = ''holiday.webm'', isDirectory = True\<rparr>] \<and>
   fst (getInputFiles new_converter env_directory_entry []) = [''holiday.webm'']"
proof -
  have "fst (getInputFiles new_converter env_directory_entry []) = [''holiday.webm'']"
    by code_simp
  then show ?thesis
    by (simp add: env_directory_entry_def sample_env_def)
qed

text \<open>
  Claim C8, amended. An entry that is a directory is returned exactly when the
  lower-cased \<open>path.extname\<close> of its name is one of the supported formats, and is
  excluded otherwise.
\<close>

theorem getInputFiles_ignores_entry_kind:
  assumes "readdir e t (inputDir this) = Inr entries"
    and "d \<in> set entries"
    and "isDirectory d"
  shows "d_name d \<in> set (fst (getInputFiles this e t)) \<longleftrightarrow>
           toLowerCase (extname (d_name d)) \<in> set (supportedFormats this)"
proof -
  have "fst (getInputFiles this e t) = filter (is_supported this) (map d_name entries)"
    using assms(1) by (simp add: getInputFiles_def Let_def)
  moreover have "d_name d \<in> set (map d_name entries)"
    using assms(2) by simp
  ultimately show ?thesis
    by (simp add: is_supported_def Let_def del: set_map)
qed

theorem getInputFiles_ignores_entry_kind_witness:
  "readdir env_directory_entry [] (inputDir new_converter) =
     Inr [\<lparr>d_name = ''holiday.webm'', isDirectory = True\<rparr>] \<and>
   \<lparr>d_name = ''holiday.webm'', isDirectory = True\<rparr> \<in>
     set [\<lparr>d_name = ''holiday.webm'', isDirectory = True\<rparr>] \<and>
   isDirectory \<lparr>d_name = ''holiday.webm'', isDirectory = True\<rparr> \<and>
   toLowerCase (extname ''holiday.webm'') \<in> set (supportedFormats new_converter) \<and>
   ''holiday.webm'' \<in> set (fst (getInputFiles new_converter env_directory_entry []))"
proof -
  let ?d = "\<lparr>d_name = ''holiday.webm'', isDirectory = True\<rparr>"
  have h1: "readdir env_directory_entry [] (inputDir new_converter) = Inr [?d]"
    by (simp add: env_directory_entry_def sample_env_def)
  have h2: "?d \<in> set [?d]" by simp
  have h3: "isDirectory ?d" by simp
  show ?thesis
    using h1 h2 h3 holiday_supported getInputFiles_ignores_entry_kind [OF h1 h2 h3]
    by simp
qed
section \<open>Which entries are returned\<close>

lemma sample_suffix_match:
  "filter has_recognized_extension (map d_name sample_listing) =
     [''clip.webm'', ''broken.MKV'', ''.webm'']"
  by code_simp

lemma sample_returned:
  "fst (getInputFiles new_converter sample_env []) = [''clip.webm'', ''broken.MKV'']"
  by code_simp

lemma sample_kept:
  "filter (\<lambda>f. has_recognized_extension f \<and> toLowerCase f \<notin> set recognized_extensions)
     (map d_name sample_listing) = [''clip.webm'', ''broken.MKV'']"
  by code_simp

lemma sample_left_out:
  "filter (\<lambda>f. \<not> (has_recognized_extension f \<and> toLowerCase f \<notin> set recognized_extensions))
     (map d_name sample_listing) = [''notes.txt'', ''.webm'']"
  by code_simp

text \<open>
  Claim C2 says that \<open>getInputFiles\<close> returns exactly the entries whose extension,
  case ignored, is recognized. With the specification's suffix match this fails on
  a listing that holds the file \<open>.webm\<close>: the name ends in a recognized extension,
  so it is one of the three recognized entries of the sample listing, and
  \<open>getInputFiles\<close> returns only the other two.
\<close>

theorem getInputFiles_drops_suffix_match:
  "readdir sample_env [] (inputDir new_converter) = Inr sample_listing \<and>
   CHAR_FORWARD_SLASH \<notin> set (concat (map d_name sample_listing)) \<and>
   filter has_recognized_extension (map d_name sample_listing) =
     [''clip.webm'', ''broken.MKV'', ''.webm''] \<and>
   fst (getInputFiles new_converter sample_env []) = [''clip.webm'', ''broken.MKV''] \<and>
   fst (getInputFiles new_converter sample_env []) \<noteq>
     filter has_recognized_extension (map d_name sample_listing)"
proof -
  have "readdir sample_env [] (inputDir new_converter) = Inr sample_listing"
    by (simp add: sample_env_def)
  moreover have "CHAR_FORWARD_SLASH \<notin> set (concat (map d_name sample_listing))"
    by (simp add: sample_listing_def CHAR_FORWARD_SLASH_def)
  ultimately show ?thesis
    by (simp add: sample_suffix_match sample_returned)
qed

text \<open>
  Claim C2, amended. For a listing of the input directory (entry names hold no
  separator), \<open>getInputFiles\<close> returns, in listing order, exactly the names that end
  in a recognized extension, case ignored, and are more than that extension alone;
  the names it returns and the names it leaves out add up to the whole listing.
\<close>

theorem getInputFiles_returns_recognized_entries:
  assumes "readdir e t (inputDir new_converter) = Inr entries"
    and "\<forall>d \<in> set entries. CHAR_FORWARD_SLASH \<notin> set (d_name d)"
  shows "fst (getInputFiles new_converter e t) =
           filter (\<lambda>f. has_recognized_extension f \<and> toLowerCase f \<notin> set recognized_extensions)
             (map d_name entries) \<and>
         length (fst (getInputFiles new_converter e t)) +
         length (filter (\<lambda>f. \<not> (has_recognized_extension f \<and>
                                  toLowerCase f \<notin> set recognized_extensions))
                   (map d_name entries)) =
           length entries"
proof -
  let ?keep = "\<lambda>f. has_recognized_extension f \<and> toLowerCase f \<notin> set recognized_extensions"
  have "filter (is_supported new_converter) (map d_name entries) =
        filter ?keep (map d_name entries)"
    using assms(2) by (intro filter_cong) (auto simp: is_supported_iff_recognized)
  then have a: "fst (getInputFiles new_converter e t) = filter ?keep (map d_name entries)"
    using assms(1) by (simp add: getInputFiles_def Let_def)
  have "length (filter ?keep (map d_name entries)) +
        length (filter (\<lambda>f. \<not> ?keep f) (map d_name entries)) =
        length (map d_name entries)"
    by (rule sum_length_filter_compl)
  with a show ?thesis by simp
qed

theorem getInputFiles_returns_recognized_entries_witness:
  "readdir sample_env [] (inputDir new_converter) = Inr sample_listing \<and>
   CHAR_FORWARD_SLASH \<notin> set (concat (map d_name sample_listing)) \<and>
   fst (getInputFiles new_converter sample_env []) = [''clip.webm'', ''broken.MKV''] \<and>
   length (fst (getInputFiles new_converter sample_env [])) + 2 = length sample_listing"
proof -
  have h1: "readdir sample_env [] (inputDir new_converter) = Inr sample_listing"
    by (simp add: sample_env_def)
  have s: "CHAR_FORWARD_SLASH \<notin> set (concat (map d_name sample_listing))"
    by (simp add: sample_listing_def CHAR_FORWARD_SLASH_def)
  then have h2: "\<forall>d \<in> set sample_listing. CHAR_FORWARD_SLASH \<notin> set (d_name d)"
    by simp
  note n = getInputFiles_returns_recognized_entries [OF h1 h2]
  from n have "fst (getInputFiles new_converter sample_env []) =
      filter (\<lambda>f. has_recognized_extension f \<and> toLowerCase f \<notin> set recognized_extensions)
        (map d_name sample_listing)"
    by (rule conjunct1)
  then have a: "fst (getInputFiles new_converter sample_env []) = [''clip.webm'', ''broken.MKV'']"
    by (simp only: sample_kept)
  from n have "length (fst (getInputFiles new_converter sample_env [])) +
      length (filter (\<lambda>f. \<not> (has_recognized_extension f \<and>
                               toLowerCase f \<notin> set recognized_extensions))
                (map d_name sample_listing)) =
      length sample_listing"
    by (rule conjunct2)
  then have "length (fst (getInputFiles new_converter sample_env [])) +
      length [''notes.txt'', ''.webm''] = length sample_listing"
    by (simp only: sample_left_out)
  then have b: "length (fst (getInputFiles new_converter sample_env [])) + 2 = length sample_listing"
    by simp
  from h1 s a b show ?thesis by blast
qed

section \<open>A name that is only an extension\<close>

lemma sample_bare_extension:
  "toLowerCase ''.webm'' \<in> set (supportedFormats new_converter)"
  by code_simp

text \<open>
  Claim C9. A name that consists of a recognized extension alone, in any mix of
  upper and lower case, such as \<open>.webm\<close>, is left out by \<open>getInputFiles\<close>:
  \<open>path.extname\<close> gives the empty string for it, so the filter rejects it although
  the name ends in a recognized extension.
\<close>

theorem getInputFiles_excludes_bare_extension:
  assumes "toLowerCase x \<in> set (supportedFormats new_converter)"
  shows "extname x = [] \<and> \<not> is_supported new_converter x \<and>
         x \<notin> set (fst (getInputFiles new_converter e t))"
proof -
  from extension_shape [OF assms] obtain r where
    r: "x = CHAR_DOT # r" "CHAR_DOT \<notin> set r" "CHAR_FORWARD_SLASH \<notin> set r"
    by blast
  have "extname ([] @ CHAR_DOT # r) = []"
    using extname_dotted [of "[]" r] r(2,3) by simp
  then have e: "extname x = []" by (simp add: r(1))
  then have n: "\<not> is_supported new_converter x"
    by (simp add: is_supported_def Let_def toLowerCase_def new_converter_def)
  then have "x \<notin> set (fst (getInputFiles new_converter e t))"
    by (simp add: getInputFiles_def Let_def split: sum.splits)
  with e n show ?thesis by simp
qed

theorem getInputFiles_excludes_bare_extension_witness:
  "toLowerCase ''.webm'' \<in> set (supportedFormats new_converter) \<and>
   ''.webm'' \<in> set (map d_name sample_listing) \<and>
   extname ''.webm'' = [] \<and>
   \<not> is_supported new_converter ''.webm'' \<and>
   ''.webm'' \<notin> set (fst (getInputFiles new_converter sample_env []))"
proof -
  have m: "''.webm'' \<in> set (map d_name sample_listing)"
    by (simp add: sample_listing_def)
  show ?thesis
    using sample_bare_extension m
      getInputFiles_excludes_bare_extension [OF sample_bare_extension, of sample_env "[]"]
    by simp
qed
section \<open>The output path\<close>

lemma sample_upper_case_extension:
  "toLowerCase ''.MOV'' \<in> set (supportedFormats new_converter)"
  by code_simp

lemma sample_input_path: "inputPath new_converter ''HOLIDAY.MOV'' = ''input/HOLIDAY.MOV''"
  by code_simp

text \<open>
  Claim C3. For an input file name made of a non-empty base name (holding no
  separator) and a recognized extension in any mix of upper and lower case,
  \<open>convertFile\<close> names the output after the base name with \<open>.mp4\<close> and places it in
  the output directory: \<open>path.join\<close> of \<open>./output\<close> and that name, which is the
  normalized path \<open>output/name.mp4\<close>, and this is the path the engine is given.
\<close>

theorem convertFile_output_path:
  assumes "CHAR_FORWARD_SLASH \<notin> set stem" and "stem \<noteq> []"
    and "toLowerCase x \<in> set (supportedFormats new_converter)"
  shows "outputFileName (stem @ x) = stem @ ''.mp4'' \<and>
         outputPath new_converter (stem @ x) = ''output/'' @ stem @ ''.mp4'' \<and>
         engine_runs (snd (convertFile new_converter e t (stem @ x))) =
           engine_runs t @ [(inputPath new_converter (stem @ x), ''output/'' @ stem @ ''.mp4'')]"
proof -
  from extension_shape [OF assms(3)] obtain r where
    r: "x = CHAR_DOT # r" "r \<noteq> []" "CHAR_DOT \<notin> set r" "CHAR_FORWARD_SLASH \<notin> set r"
    by blast
  have "name (parse (stem @ CHAR_DOT # r)) = stem"
    using parse_name_dotted [OF assms(1) r(4) r(3)] assms(2) r(2) by simp
  then have n: "outputFileName (stem @ x) = stem @ ''.mp4''"
    by (simp add: outputFileName_def r(1))
  then have p: "outputPath new_converter (stem @ x) = ''output/'' @ stem @ ''.mp4''"
    by (simp add: outputPath_def outputPath_mp4 [OF assms(1)])
  from n p show ?thesis
    by (simp add: convertFile_engine_runs)
qed


theorem convertFile_output_path_witness:
  "CHAR_FORWARD_SLASH \<notin> set ''HOLIDAY'' \<and>
   toLowerCase ''.MOV'' \<in> set (supportedFormats new_converter) \<and>
   outputFileName ''HOLIDAY.MOV'' = ''HOLIDAY.mp4'' \<and>
   outputPath new_converter ''HOLIDAY.MOV'' = ''output/HOLIDAY.mp4'' \<and>
   engine_runs (snd (convertFile new_converter sample_env [] ''HOLIDAY.MOV'')) =
     [(''input/HOLIDAY.MOV'', ''output/HOLIDAY.mp4'')]"
proof -
  have h1: "CHAR_FORWARD_SLASH \<notin> set ''HOLIDAY''"
    by (simp add: CHAR_FORWARD_SLASH_def)
  have h2: "''HOLIDAY'' \<noteq> []" by simp
  show ?thesis
    using h1 sample_upper_case_extension sample_input_path
      convertFile_output_path [OF h1 h2 sample_upper_case_extension, of sample_env "[]"]
    by simp
qed
section \<open>Names with several dots\<close>

lemma sample_dotted_input_path: "inputPath new_converter ''a.b.webm'' = ''input/a.b.webm''"
  by code_simp

text \<open>
  Claim C10. For an input file name with more than one dot and no separator, other
  than the name \<open>..\<close>, \<open>convertFile\<close> removes the last dot and what follows it and
  nothing else: the part before the last dot, with all its dots, becomes the base
  name of the output. That name, in the output directory, is the path
  \<open>convertFile\<close> gives to the engine and the value it resolves with when the engine
  ends without error.
\<close>

theorem convertFile_strips_final_extension_only:
  assumes "CHAR_FORWARD_SLASH \<notin> set stem" and "CHAR_FORWARD_SLASH \<notin> set x"
    and "CHAR_DOT \<notin> set x" and "CHAR_DOT \<in> set stem"
    and "stem @ CHAR_DOT # x \<noteq> ''..''"
  shows "outputFileName (stem @ CHAR_DOT # x) = stem @ ''.mp4'' \<and>
         outputPath new_converter (stem @ CHAR_DOT # x) = ''output/'' @ stem @ ''.mp4'' \<and>
         engine_runs (snd (convertFile new_converter e t (stem @ CHAR_DOT # x))) =
           engine_runs t @
           [(inputPath new_converter (stem @ CHAR_DOT # x), ''output/'' @ stem @ ''.mp4'')] \<and>
         fst (convertFile new_converter e t (stem @ CHAR_DOT # x)) =
           (case closing_signal
                   (ffmpeg e (t @ [ConsoleLog (Converting (stem @ CHAR_DOT # x) (stem @ ''.mp4''))])
                      (inputPath new_converter (stem @ CHAR_DOT # x)) outputOptions
                      (''output/'' @ stem @ ''.mp4'')) of
              End \<Rightarrow> Inr (''output/'' @ stem @ ''.mp4'')
            | Error message \<Rightarrow> Inl message)"
proof -
  have ne: "stem \<noteq> []" using assms(4) by auto
  have "\<not> (stem = [CHAR_DOT] \<and> x = [])"
    using assms(5) by (auto simp: CHAR_DOT_def)
  then have "name (parse (stem @ CHAR_DOT # x)) = stem"
    using parse_name_dotted [OF assms(1,2,3)] ne by simp
  then have n: "outputFileName (stem @ CHAR_DOT # x) = stem @ ''.mp4''"
    by (simp add: outputFileName_def)
  then have p: "outputPath new_converter (stem @ CHAR_DOT # x) = ''output/'' @ stem @ ''.mp4''"
    by (simp add: outputPath_def outputPath_mp4 [OF assms(1)])
  have r: "engine_runs (snd (convertFile new_converter e t (stem @ CHAR_DOT # x))) =
      engine_runs t @
      [(inputPath new_converter (stem @ CHAR_DOT # x), ''output/'' @ stem @ ''.mp4'')]"
    using convertFile_engine_runs [of new_converter e t "stem @ CHAR_DOT # x"]
    by (simp only: p)
  have v: "fst (convertFile new_converter e t (stem @ CHAR_DOT # x)) =
      (case closing_signal
              (ffmpeg e (t @ [ConsoleLog (Converting (stem @ CHAR_DOT # x) (stem @ ''.mp4''))])
                 (inputPath new_converter (stem @ CHAR_DOT # x)) outputOptions
                 (''output/'' @ stem @ ''.mp4'')) of
         End \<Rightarrow> Inr (''output/'' @ stem @ ''.mp4'')
       | Error message \<Rightarrow> Inl message)"
    using convertFile_result [of new_converter e t "stem @ CHAR_DOT # x"]
    by (simp only: n p)
  from n p r v show ?thesis by blast
qed

theorem convertFile_strips_final_extension_only_witness:
  "CHAR_FORWARD_SLASH \<notin> set ''a.b'' \<and> CHAR_FORWARD_SLASH \<notin> set ''webm'' \<and>
   CHAR_DOT \<notin> set ''webm'' \<and> CHAR_DOT \<in> set ''a.b'' \<and>
   ''a.b.webm'' \<noteq> ''..'' \<and>
   outputFileName ''a.b.webm'' = ''a.b.mp4'' \<and>
   outputPath new_converter ''a.b.webm'' = ''output/a.b.mp4'' \<and>
   engine_runs (snd (convertFile new_converter sample_env [] ''a.b.webm'')) =
     [(''input/a.b.webm'', ''output/a.b.mp4'')] \<and>
   fst (convertFile new_converter sample_env [] ''a.b.webm'') = Inr ''output/a.b.mp4''"
proof -
  have h1: "CHAR_FORWARD_SLASH \<notin> set ''a.b''" by (simp add: CHAR_FORWARD_SLASH_def)
  have h2: "CHAR_FORWARD_SLASH \<notin> set ''webm''" by (simp add: CHAR_FORWARD_SLASH_def)
  have h3: "CHAR_DOT \<notin> set ''webm''" by (simp add: CHAR_DOT_def)
  have h4: "CHAR_DOT \<in> set ''a.b''" by (simp add: CHAR_DOT_def)
  have h5: "''a.b'' @ CHAR_DOT # ''webm'' \<noteq> ''..''" by simp
  show ?thesis
    using h1 h2 h3 h4
      convertFile_strips_final_extension_only [OF h1 h2 h3 h4 h5, of sample_env "[]"]
    by (simp add: CHAR_DOT_def sample_dotted_input_path sample_env_def sample_engine_def)
qed


end
